theory Spec2Isabelle
  imports Complex_Main "HOL-Library.AList"
begin

section \<open>FloodLink: levels, risk model, alert differ, tweet ledger, snapshot rotation\<close>

text \<open>
  A shallow embedding of \<^verbatim>\<open>floodlink_glofas_hotspots.py\<close>, \<^verbatim>\<open>livefloodengine.py\<close> and of
  \<^verbatim>\<open>get_news_relevance_score\<close> in \<^verbatim>\<open>news-feed.py\<close>. The risk model and the level of a
  return period compute on \<open>pyfloat\<close>, the floats with their infinities and NaN; the
  coordinates and the other numbers that an alert only carries are finite and read as real
  numbers. Finite arithmetic is exact throughout: the rounding, the overflow and the
  underflow of IEEE arithmetic are not modelled, and the two zeros are one value. Python
  strings are \<open>string\<close> (the code points below 256), a Python \<^verbatim>\<open>dict\<close> whose iteration
  order matters is an association list in insertion order, any other \<^verbatim>\<open>dict\<close> a map, and
  every exception a value of \<open>error\<close>.
\<close>

subsection \<open>Exceptions\<close>

datatype error = ValueError | JSONDecodeError | ZeroDivisionError

subsection \<open>Numbers: \<^verbatim>\<open>round(x, n)\<close> and \<^verbatim>\<open>f"{x:.4f}"\<close>\<close>

text \<open>Python rounds to the nearest multiple of \<open>10^-n\<close>, an exact tie to the even one.\<close>

definition round_half_even :: "real \<Rightarrow> int" where
  "round_half_even y =
     (let f = \<lfloor>y\<rfloor>; d = y - of_int f in
      if d < 1 / 2 then f
      else if 1 / 2 < d then f + 1
      else if even f then f else f + 1)"

definition py_round :: "real \<Rightarrow> nat \<Rightarrow> real" where
  "py_round x n = of_int (round_half_even (x * 10 ^ n)) / 10 ^ n"

text \<open>
  The text \<^verbatim>\<open>f"{x:.4f}"\<close> is a minus sign exactly when \<open>x\<close> is negative (also when the
  digits are all zero: \<^verbatim>\<open>-0.0000\<close>), followed by the digits of \<open>\<bar>x\<bar>\<close> rounded to four
  decimals. The model keeps the sign and the digits as a number of ten-thousandths. The
  float \<^verbatim>\<open>-0.0\<close>, which prints with a minus sign too, is not a value of the model.
\<close>

definition format_4f :: "real \<Rightarrow> bool \<times> nat" where
  "format_4f x = (x < 0, nat \<bar>round_half_even (x * 10 ^ 4)\<bar>)"

subsection \<open>Floats\<close>

text \<open>
  A float is a finite number, an infinity or NaN. The comparisons are those of Python:
  every comparison with NaN is false.
\<close>

datatype pyfloat = Fin real | PInf | NInf | NaN

fun fless :: "pyfloat \<Rightarrow> pyfloat \<Rightarrow> bool" where
  "fless (Fin x) (Fin y) = (x < y)"
| "fless (Fin x) PInf = True"
| "fless NInf (Fin y) = True"
| "fless NInf PInf = True"
| "fless a b = False"

definition feq :: "pyfloat \<Rightarrow> pyfloat \<Rightarrow> bool" where
  "feq a b = (a \<noteq> NaN \<and> a = b)"

definition fle :: "pyfloat \<Rightarrow> pyfloat \<Rightarrow> bool" where
  "fle a b = (fless a b \<or> feq a b)"

definition fge :: "pyfloat \<Rightarrow> pyfloat \<Rightarrow> bool" where
  "fge a b = fle b a"

text \<open>
  \<^verbatim>\<open>max(a, b)\<close> keeps \<open>a\<close> unless \<^verbatim>\<open>b > a\<close>, and \<^verbatim>\<open>min(a, b)\<close> keeps \<open>a\<close> unless \<^verbatim>\<open>b < a\<close>: a
  NaN in second place is dropped, a NaN in first place is kept.
\<close>

definition fmax :: "pyfloat \<Rightarrow> pyfloat \<Rightarrow> pyfloat" where
  "fmax a b = (if fless a b then b else a)"

definition fmin :: "pyfloat \<Rightarrow> pyfloat \<Rightarrow> pyfloat" where
  "fmin a b = (if fless b a then b else a)"

fun fneg :: "pyfloat \<Rightarrow> pyfloat" where
  "fneg (Fin x) = Fin (- x)"
| "fneg PInf = NInf"
| "fneg NInf = PInf"
| "fneg NaN = NaN"

fun fadd :: "pyfloat \<Rightarrow> pyfloat \<Rightarrow> pyfloat" where
  "fadd (Fin x) (Fin y) = Fin (x + y)"
| "fadd NaN b = NaN"
| "fadd a NaN = NaN"
| "fadd PInf NInf = NaN"
| "fadd NInf PInf = NaN"
| "fadd (Fin x) b = b"
| "fadd a b = a"

definition fsub :: "pyfloat \<Rightarrow> pyfloat \<Rightarrow> pyfloat" where
  "fsub a b = fadd a (fneg b)"

text \<open>The product of zero and an infinity is NaN.\<close>

fun fmul :: "pyfloat \<Rightarrow> pyfloat \<Rightarrow> pyfloat" where
  "fmul (Fin x) (Fin y) = Fin (x * y)"
| "fmul NaN b = NaN"
| "fmul a NaN = NaN"
| "fmul (Fin x) b = (if x = 0 then NaN else if 0 < x then b else fneg b)"
| "fmul a (Fin y) = (if y = 0 then NaN else if 0 < y then a else fneg a)"
| "fmul PInf PInf = PInf"
| "fmul NInf NInf = PInf"
| "fmul a b = NInf"

text \<open>\<^verbatim>\<open>a / b\<close> raises \<^verbatim>\<open>ZeroDivisionError\<close> when \<open>b\<close> is zero, whatever \<open>a\<close> is.\<close>

fun fdiv :: "pyfloat \<Rightarrow> pyfloat \<Rightarrow> error + pyfloat" where
  "fdiv (Fin x) (Fin y) = (if y = 0 then Inl ZeroDivisionError else Inr (Fin (x / y)))"
| "fdiv NaN (Fin y) = (if y = 0 then Inl ZeroDivisionError else Inr NaN)"
| "fdiv a (Fin y) =
     (if y = 0 then Inl ZeroDivisionError else Inr (if 0 < y then a else fneg a))"
| "fdiv a NaN = Inr NaN"
| "fdiv (Fin x) b = Inr (Fin 0)"
| "fdiv a b = Inr NaN"

text \<open>\<^verbatim>\<open>round(x, n)\<close> of a float: an infinity and NaN round to themselves.\<close>

definition round_float :: "pyfloat \<Rightarrow> nat \<Rightarrow> pyfloat" where
  "round_float x n = (case x of Fin r \<Rightarrow> Fin (py_round r n) | _ \<Rightarrow> x)"

subsection \<open>Levels\<close>

definition LEVELS :: "string list" where
  "LEVELS = [''None'', ''Low'', ''Medium'', ''High'', ''Extreme'']"

definition TWEET_LEVELS :: "string list" where
  "TWEET_LEVELS = [''Medium'', ''High'', ''Extreme'']"

definition ALERT_ON_UPGRADES :: bool where
  "ALERT_ON_UPGRADES = True"

definition ALERT_ON_DOWNGRADES :: bool where
  "ALERT_ON_DOWNGRADES = True"

text \<open>\<^verbatim>\<open>xs.index(x)\<close>: the first position of \<open>x\<close>, \<^verbatim>\<open>ValueError\<close> when it is absent.\<close>

fun list_index :: "'a list \<Rightarrow> 'a \<Rightarrow> error + nat" where
  "list_index [] x = Inl ValueError"
| "list_index (y # ys) x =
     (if y = x then Inr 0
      else case list_index ys x of Inl e \<Rightarrow> Inl e | Inr i \<Rightarrow> Inr (Suc i))"

text \<open>
  The order of the levels is the order of their positions in \<open>LEVELS\<close>; a string that is
  not a level is below and above nothing.
\<close>

definition level_le :: "string \<Rightarrow> string \<Rightarrow> bool" where
  "level_le a b =
     (case list_index LEVELS a of
        Inl e \<Rightarrow> False
      | Inr i \<Rightarrow> (case list_index LEVELS b of Inl e \<Rightarrow> False | Inr j \<Rightarrow> i \<le> j))"

definition level_less :: "string \<Rightarrow> string \<Rightarrow> bool" where
  "level_less a b =
     (case list_index LEVELS a of
        Inl e \<Rightarrow> False
      | Inr i \<Rightarrow> (case list_index LEVELS b of Inl e \<Rightarrow> False | Inr j \<Rightarrow> i < j))"

subsection \<open>The risk model of the live evaluator\<close>

definition RAIN_UNIT_MM :: pyfloat where "RAIN_UNIT_MM = Fin 100"
definition SOIL_MIN_MULT :: pyfloat where "SOIL_MIN_MULT = Fin (95 / 100)"
definition SOIL_MAX_MULT :: pyfloat where "SOIL_MAX_MULT = Fin (18 / 10)"
definition HUM_MIN_MULT :: pyfloat where "HUM_MIN_MULT = Fin 1"
definition HUM_MAX_MULT :: pyfloat where "HUM_MAX_MULT = Fin (105 / 100)"
definition RAIN_CUTOFF_MM :: pyfloat where "RAIN_CUTOFF_MM = Fin 0"
definition RAW_LOW_MAX :: pyfloat where "RAW_LOW_MAX = Fin 5"
definition RAW_MED_MAX :: pyfloat where "RAW_MED_MAX = Fin 15"
definition RAW_HIGH_MAX :: pyfloat where "RAW_HIGH_MAX = Fin 35"

definition rainfall_multiplier :: "pyfloat \<Rightarrow> error + pyfloat" where
  "rainfall_multiplier rain_mm =
     (case fdiv rain_mm RAIN_UNIT_MM of
        Inl e \<Rightarrow> Inl e
      | Inr q \<Rightarrow> Inr (fmax (Fin 0) q))"

definition soil_multiplier :: "pyfloat \<Rightarrow> pyfloat" where
  "soil_multiplier soil_frac =
     (let s = fmax (Fin 0) (fmin (Fin 1) soil_frac) in
      fadd SOIL_MIN_MULT (fmul s (fsub SOIL_MAX_MULT SOIL_MIN_MULT)))"

definition humidity_multiplier :: "pyfloat \<Rightarrow> error + pyfloat" where
  "humidity_multiplier rh_percent =
     (let rh = fmax (Fin 0) (fmin (Fin 100) rh_percent) in
      (case fdiv rh (Fin 100) of
         Inl e \<Rightarrow> Inl e
       | Inr q \<Rightarrow> Inr (fadd HUM_MIN_MULT (fmul q (fsub HUM_MAX_MULT HUM_MIN_MULT)))))"

text \<open>
  The band chain of \<^verbatim>\<open>calculate_dynamic_risk_raw\<close>, as a function of the local variable
  \<^verbatim>\<open>raw_score\<close>.
\<close>

definition raw_level :: "pyfloat \<Rightarrow> string" where
  "raw_level raw_score =
     (if feq raw_score (Fin 0) then ''None''
      else if fless raw_score RAW_LOW_MAX then ''Low''
      else if fless raw_score RAW_MED_MAX then ''Medium''
      else if fless raw_score RAW_HIGH_MAX then ''High''
      else ''Extreme'')"

text \<open>
  The result carries the raw score rounded to three decimals; the level is the level of
  the raw score itself.
\<close>

definition calculate_dynamic_risk_raw ::
  "pyfloat \<Rightarrow> pyfloat \<Rightarrow> pyfloat \<Rightarrow> pyfloat \<Rightarrow>
   error + pyfloat \<times> string \<times> pyfloat \<times> pyfloat \<times> pyfloat" where
  "calculate_dynamic_risk_raw base_risk rain_mm rh_percent soil_frac =
     (if fless rain_mm RAIN_CUTOFF_MM
      then (case humidity_multiplier (Fin 0) of
              Inl e \<Rightarrow> Inl e
            | Inr h0 \<Rightarrow> Inr (Fin 0, ''None'', Fin 0, soil_multiplier (Fin 0), h0))
      else
        (case rainfall_multiplier rain_mm of
           Inl e \<Rightarrow> Inl e
         | Inr r_mult \<Rightarrow>
            (let s_mult = soil_multiplier soil_frac in
             (case humidity_multiplier rh_percent of
                Inl e \<Rightarrow> Inl e
              | Inr h_mult \<Rightarrow>
                 (let raw_score =
                        fmul (fmul (fmul (fmax (Fin 0) base_risk) r_mult) s_mult) h_mult;
                      level = raw_level raw_score
                  in Inr (round_float raw_score 3, level, r_mult, s_mult, h_mult))))))"

subsection \<open>The level of a GloFAS return period\<close>

definition return_period_to_level :: "pyfloat option \<Rightarrow> string" where
  "return_period_to_level rp =
     (case rp of
        None \<Rightarrow> ''Medium''
      | Some r \<Rightarrow>
          if fge r (Fin 20) then ''Extreme''
          else if fge r (Fin 5) then ''High''
          else if fge r (Fin 2) then ''Medium''
          else ''Low'')"

subsection \<open>Alerts and their keys\<close>

text \<open>
  An alert is a \<^verbatim>\<open>dict\<close> with a fixed set of keys; the fields both evaluators share are
  the base record, and each evaluator extends it.
\<close>

record alert =
  alert_id :: string
  name :: string
  latitude :: real
  longitude :: real
  raw_dynamic_score :: real
  dynamic_level :: string

record city =
  city_name :: string
  city_country :: string
  population :: int
  distance_km :: real

record glofas_alert = alert +
  country :: string
  headline_city :: string
  river_name :: string
  return_period :: "real option"
  lead_time_days :: "real option"
  nearest_cities :: "city list"

record live_alert = alert +
  base_risk :: real
  rain_h_mm :: real
  humidity_avg :: real
  soil_moisture_avg :: real
  rain_mult :: real
  soil_mult :: real
  humidity_mult :: real

type_synonym site_key = "real \<times> real"

text \<open>The key of \<^verbatim>\<open>build_alert_dict\<close>: \<^verbatim>\<open>(round(lat, 4), round(lon, 4))\<close>.\<close>

definition alert_key :: "'a alert_scheme \<Rightarrow> site_key" where
  "alert_key a = (py_round (latitude a) 4, py_round (longitude a) 4)"

type_synonym log_key = "(bool \<times> nat) \<times> (bool \<times> nat)"

text \<open>The key of the tweet log: \<^verbatim>\<open>f"{lat:.4f},{lon:.4f}"\<close>.\<close>

definition tweet_key :: "'a alert_scheme \<Rightarrow> log_key" where
  "tweet_key a = (format_4f (latitude a), format_4f (longitude a))"

text \<open>The pair of rounded coordinates that a key of the tweet log prints.\<close>

definition number_of_4f :: "bool \<times> nat \<Rightarrow> real" where
  "number_of_4f t = (if fst t then - real (snd t) else real (snd t)) / 10 ^ 4"

definition site_of_log_key :: "log_key \<Rightarrow> site_key" where
  "site_of_log_key k = (number_of_4f (fst k), number_of_4f (snd k))"

text \<open>
  \<^verbatim>\<open>{key(a): a for a in alerts}\<close>: a later alert with the key of an earlier one replaces
  its value and keeps its place.
\<close>

definition build_alert_dict :: "'a alert_scheme list \<Rightarrow> (site_key \<times> 'a alert_scheme) list" where
  "build_alert_dict alerts = fold (\<lambda>a d. AList.update (alert_key a) a d) alerts []"

subsection \<open>The differ\<close>

datatype change_type = New | Upgrade | Downgrade

type_synonym 'a changes = "(change_type \<times> 'a) list"

text \<open>One turn of the loop of \<^verbatim>\<open>compare_alerts\<close>, on the item \<open>(key, c)\<close> of \<open>curr\<close>.\<close>

definition compare_step ::
  "(site_key \<times> 'a alert_scheme) list \<Rightarrow> site_key \<Rightarrow> 'a alert_scheme
     \<Rightarrow> 'a alert_scheme changes \<Rightarrow> error + 'a alert_scheme changes" where
  "compare_step prev key c changes =
     (let cur_lvl = dynamic_level c in
      case map_of prev key of
        None \<Rightarrow> Inr (if cur_lvl \<in> set TWEET_LEVELS then changes @ [(New, c)] else changes)
      | Some p \<Rightarrow>
          (let prev_lvl = dynamic_level p in
           if prev_lvl = cur_lvl then Inr changes
           else
            (case list_index LEVELS prev_lvl of
               Inl e \<Rightarrow> Inl e
             | Inr prev_i \<Rightarrow>
                (case list_index LEVELS cur_lvl of
                   Inl e \<Rightarrow> Inl e
                 | Inr cur_i \<Rightarrow>
                    (if ALERT_ON_UPGRADES \<and> prev_i < cur_i \<and> cur_lvl \<in> set TWEET_LEVELS
                     then Inr (changes @ [(Upgrade, c)])
                     else if ALERT_ON_DOWNGRADES \<and> cur_i < prev_i \<and> prev_lvl \<in> set TWEET_LEVELS
                     then Inr (changes @ [(Downgrade, c)])
                     else Inr changes)))))"

fun compare_loop ::
  "(site_key \<times> 'a alert_scheme) list \<Rightarrow> (site_key \<times> 'a alert_scheme) list
     \<Rightarrow> 'a alert_scheme changes \<Rightarrow> error + 'a alert_scheme changes" where
  "compare_loop prev [] changes = Inr changes"
| "compare_loop prev ((key, c) # rest) changes =
     (case compare_step prev key c changes of
        Inl e \<Rightarrow> Inl e
      | Inr changes' \<Rightarrow> compare_loop prev rest changes')"

definition compare_alerts ::
  "(site_key \<times> 'a alert_scheme) list \<Rightarrow> (site_key \<times> 'a alert_scheme) list
     \<Rightarrow> error + 'a alert_scheme changes" where
  "compare_alerts prev cur = compare_loop prev cur []"

subsection \<open>The tweet log\<close>

text \<open>
  An entry of the tweet log. Its key \<^verbatim>\<open>resolved\<close> is absent or holds \<^verbatim>\<open>True\<close>:
  \<open>e_resolved\<close> says that it is there. The keys both evaluators write are the base
  record.
\<close>

record entry =
  e_name :: string
  e_risk_level :: string
  e_latitude :: real
  e_longitude :: real
  e_raw_dynamic_score :: real
  e_last_updated :: string
  e_resolved :: bool

record glofas_entry = entry +
  e_country :: string
  e_river_name :: string
  e_return_period :: "real option"
  e_lead_time_days :: "real option"

record live_entry = entry +
  e_rain_mm :: real
  e_humidity :: real
  e_soil_moisture :: real

text \<open>
  The state of the loop that tweets and updates the tracker: the calls of
  \<^verbatim>\<open>tweet_alert\<close> made so far, in order, and the dictionary \<^verbatim>\<open>tweeted_alerts\<close>.
  \<^verbatim>\<open>tweet_alert\<close> catches every failure of the send, so a call never raises. The pauses
  between tweets change no value and are left out. The wall clock is an oracle:
  \<open>clock 0\<close> is the time read for the snapshot, \<open>clock i\<close> the time read after the
  \<open>i\<close>-th call of \<^verbatim>\<open>tweet_alert\<close> of the run.
\<close>

record ('a, 'e) tracker =
  tweets :: "(change_type \<times> 'a) list"
  tweeted_alerts :: "log_key \<rightharpoonup> 'e"

text \<open>The entry written at lines 468-495 of \<^verbatim>\<open>floodlink_glofas_hotspots.py\<close>.\<close>

definition glofas_entry_of :: "glofas_alert \<Rightarrow> string \<Rightarrow> glofas_entry" where
  "glofas_entry_of alert now =
     (let current_level = dynamic_level alert in
      if current_level \<in> set TWEET_LEVELS
      then \<lparr>e_name = headline_city alert, e_risk_level = current_level,
            e_latitude = latitude alert, e_longitude = longitude alert,
            e_raw_dynamic_score = raw_dynamic_score alert, e_last_updated = now,
            e_resolved = False,
            e_country = country alert, e_river_name = river_name alert,
            e_return_period = return_period alert, e_lead_time_days = lead_time_days alert\<rparr>
      else \<lparr>e_name = headline_city alert, e_risk_level = current_level,
            e_latitude = latitude alert, e_longitude = longitude alert,
            e_raw_dynamic_score = raw_dynamic_score alert, e_last_updated = now,
            e_resolved = True,
            e_country = country alert, e_river_name = river_name alert,
            e_return_period = return_period alert, e_lead_time_days = lead_time_days alert\<rparr>)"

definition glofas_tweet_step ::
  "(nat \<Rightarrow> string) \<Rightarrow> change_type \<times> glofas_alert \<Rightarrow> (glofas_alert, glofas_entry) tracker
     \<Rightarrow> (glofas_alert, glofas_entry) tracker" where
  "glofas_tweet_step clock ch st =
     (let change = fst ch; alert = snd ch; key = tweet_key alert in
      if change = Downgrade \<and> tweeted_alerts st key = None then st
      else
        let st1 = st\<lparr>tweets := tweets st @ [(change, alert)]\<rparr>;
            now = clock (length (tweets st1))
        in st1\<lparr>tweeted_alerts := (tweeted_alerts st1)(key \<mapsto> glofas_entry_of alert now)\<rparr>)"

definition glofas_tweet_loop ::
  "(nat \<Rightarrow> string) \<Rightarrow> glofas_alert changes \<Rightarrow> (glofas_alert, glofas_entry) tracker
     \<Rightarrow> (glofas_alert, glofas_entry) tracker" where
  "glofas_tweet_loop clock changes st = fold (glofas_tweet_step clock) changes st"

text \<open>The entry written at lines 401-411 of \<^verbatim>\<open>livefloodengine.py\<close>.\<close>

definition live_entry_of :: "live_alert \<Rightarrow> string \<Rightarrow> live_entry" where
  "live_entry_of alert now =
     \<lparr>e_name = name alert, e_risk_level = dynamic_level alert, e_latitude = latitude alert,
      e_longitude = longitude alert, e_raw_dynamic_score = raw_dynamic_score alert,
      e_last_updated = now, e_resolved = False,
      e_rain_mm = rain_h_mm alert, e_humidity = humidity_avg alert,
      e_soil_moisture = soil_moisture_avg alert\<rparr>"

definition live_tweet_step ::
  "(nat \<Rightarrow> string) \<Rightarrow> change_type \<times> live_alert \<Rightarrow> (live_alert, live_entry) tracker
     \<Rightarrow> (live_alert, live_entry) tracker" where
  "live_tweet_step clock ch st =
     (let change = fst ch; alert = snd ch; key = tweet_key alert;
          st1 = st\<lparr>tweets := tweets st @ [(change, alert)]\<rparr>;
          now = clock (length (tweets st1))
      in st1\<lparr>tweeted_alerts := (tweeted_alerts st1)(key \<mapsto> live_entry_of alert now)\<rparr>)"

definition live_tweet_loop ::
  "(nat \<Rightarrow> string) \<Rightarrow> live_alert changes \<Rightarrow> (live_alert, live_entry) tracker
     \<Rightarrow> (live_alert, live_entry) tracker" where
  "live_tweet_loop clock changes st = fold (live_tweet_step clock) changes st"

definition cleanup_tweeted_alerts :: "(log_key \<rightharpoonup> 'e) \<Rightarrow> log_key set \<Rightarrow> (log_key \<rightharpoonup> 'e)" where
  "cleanup_tweeted_alerts tweeted valid_coords = tweeted |` valid_coords"

subsection \<open>Files\<close>

text \<open>
  A file that exists holds bytes that \<^verbatim>\<open>json.load\<close> either rejects with
  \<^verbatim>\<open>JSONDecodeError\<close> or reads as a document; a path with no file is \<open>None\<close>.
\<close>

datatype 'd stored = Corrupt | Doc 'd

record comparison_meta =
  timestamp :: string
  source :: string
  features_evaluated :: nat

text \<open>
  The comparison document. The default \<^verbatim>\<open>{"alerts": []}\<close> of \<^verbatim>\<open>load_json\<close> has no other
  key, so the other keys are optional as a whole.
\<close>

record 'a comparison =
  meta :: "comparison_meta option"
  doc_alerts :: "'a list"

text \<open>The comparison file and its numbered snapshots \<^verbatim>\<open>{prefix}_{i}{ext}\<close>.\<close>

datatype snapshot_path = Base | Numbered nat

record ('a, 'e) files =
  comparison_files :: "snapshot_path \<Rightarrow> 'a comparison stored option"
  tweet_log :: "(log_key \<rightharpoonup> 'e) stored option"

definition load_json ::
  "(snapshot_path \<Rightarrow> 'a comparison stored option) \<Rightarrow> snapshot_path \<Rightarrow> error + 'a comparison" where
  "load_json fs path =
     (case fs path of
        None \<Rightarrow> Inr \<lparr>meta = None, doc_alerts = []\<rparr>
      | Some Corrupt \<Rightarrow> Inl JSONDecodeError
      | Some (Doc d) \<Rightarrow> Inr d)"

definition load_tweeted_alerts ::
  "(log_key \<rightharpoonup> 'e) stored option \<Rightarrow> error + (log_key \<rightharpoonup> 'e)" where
  "load_tweeted_alerts file =
     (case file of
        None \<Rightarrow> Inr Map.empty
      | Some Corrupt \<Rightarrow> Inl JSONDecodeError
      | Some (Doc d) \<Rightarrow> Inr d)"

subsection \<open>Rotation of the comparison snapshots\<close>

definition COMPARISON_HISTORY :: int where
  "COMPARISON_HISTORY = 5"

definition os_remove :: "snapshot_path \<Rightarrow> (snapshot_path \<rightharpoonup> 'c) \<Rightarrow> (snapshot_path \<rightharpoonup> 'c)" where
  "os_remove p fs = fs(p := None)"

text \<open>\<^verbatim>\<open>os.replace(src, dst)\<close>, called only where \<open>src\<close> exists.\<close>

definition os_replace ::
  "snapshot_path \<Rightarrow> snapshot_path \<Rightarrow> (snapshot_path \<rightharpoonup> 'c) \<Rightarrow> (snapshot_path \<rightharpoonup> 'c)" where
  "os_replace src dst fs = (fs(dst := fs src))(src := None)"

text \<open>One turn of the loop \<^verbatim>\<open>for i in range(max_history - 1, 0, -1)\<close>.\<close>

definition shift_step :: "nat \<Rightarrow> (snapshot_path \<rightharpoonup> 'c) \<Rightarrow> (snapshot_path \<rightharpoonup> 'c)" where
  "shift_step i fs =
     (let older = Numbered i; newer = Numbered (i + 1) in
      if fs older \<noteq> None
      then os_replace older newer (if fs newer \<noteq> None then os_remove newer fs else fs)
      else fs)"

definition rotate_comparison_snapshots ::
  "int \<Rightarrow> (snapshot_path \<rightharpoonup> 'c) \<Rightarrow> (snapshot_path \<rightharpoonup> 'c)" where
  "rotate_comparison_snapshots max_history fs =
     (let fs1 = fold shift_step (rev [1 ..< nat max_history]) fs in
      if fs1 Base \<noteq> None
      then
        let first_snapshot = Numbered 1 in
        os_replace Base first_snapshot
          (if fs1 first_snapshot \<noteq> None then os_remove first_snapshot fs1 else fs1)
      else fs1)"

subsection \<open>The two main workflows\<close>

text \<open>
  A run takes the files it finds, the wall clock and the alerts of this run (the list
  \<^verbatim>\<open>alerts\<close> that the loop over the fetched sites builds), and returns the files it leaves
  and the calls of \<^verbatim>\<open>tweet_alert\<close> it made. Nothing is written before the tweet loop has
  ended, so a run that raises leaves the files as they were.
\<close>

definition glofas_main ::
  "(nat \<Rightarrow> string) \<Rightarrow> glofas_alert list \<Rightarrow> (glofas_alert, glofas_entry) files
     \<Rightarrow> error + (glofas_alert, glofas_entry) files \<times> glofas_alert changes" where
  "glofas_main clock alerts fs =
     (case load_json (comparison_files fs) Base of
        Inl e \<Rightarrow> Inl e
      | Inr previous \<Rightarrow>
         (let prev_alerts_dict = build_alert_dict (doc_alerts previous) in
          (case load_tweeted_alerts (tweet_log fs) of
             Inl e \<Rightarrow> Inl e
           | Inr tweeted \<Rightarrow>
              (let result = \<lparr>meta = Some \<lparr>timestamp = clock 0, source = ''GloFAS'',
                                           features_evaluated = length alerts\<rparr>,
                             doc_alerts = alerts\<rparr>;
                   curr_alerts_dict = build_alert_dict alerts
               in
                (case compare_alerts prev_alerts_dict curr_alerts_dict of
                   Inl e \<Rightarrow> Inl e
                 | Inr changes \<Rightarrow>
                    (let st = glofas_tweet_loop clock changes
                                \<lparr>tweets = [], tweeted_alerts = tweeted\<rparr>;
                         fs1 = fs\<lparr>tweet_log := Some (Doc (tweeted_alerts st))\<rparr>;
                         fs2 = fs1\<lparr>comparison_files :=
                                 rotate_comparison_snapshots COMPARISON_HISTORY
                                   (comparison_files fs1)\<rparr>;
                         fs3 = fs2\<lparr>comparison_files :=
                                 (comparison_files fs2)(Base \<mapsto> Doc result)\<rparr>
                     in Inr (fs3, tweets st)))))))"

text \<open>
  The live evaluator also takes \<open>valid_coords\<close>, the keys of the rows of its feature
  table, and keeps one comparison file only.
\<close>

definition live_main ::
  "(nat \<Rightarrow> string) \<Rightarrow> log_key set \<Rightarrow> live_alert list \<Rightarrow> (live_alert, live_entry) files
     \<Rightarrow> error + (live_alert, live_entry) files \<times> live_alert changes" where
  "live_main clock valid_coords alerts fs =
     (case load_json (comparison_files fs) Base of
        Inl e \<Rightarrow> Inl e
      | Inr previous \<Rightarrow>
         (let prev_alerts_dict = build_alert_dict (doc_alerts previous) in
          (case load_tweeted_alerts (tweet_log fs) of
             Inl e \<Rightarrow> Inl e
           | Inr tweeted0 \<Rightarrow>
              (let tweeted = cleanup_tweeted_alerts tweeted0 valid_coords;
                   result = \<lparr>meta = Some \<lparr>timestamp = clock 0, source = ''Open-Meteo'',
                                           features_evaluated = length alerts\<rparr>,
                             doc_alerts = alerts\<rparr>;
                   curr_alerts_dict = build_alert_dict alerts
               in
                (case compare_alerts prev_alerts_dict curr_alerts_dict of
                   Inl e \<Rightarrow> Inl e
                 | Inr changes \<Rightarrow>
                    (let st = live_tweet_loop clock changes
                                \<lparr>tweets = [], tweeted_alerts = tweeted\<rparr>;
                         fs1 = fs\<lparr>tweet_log := Some (Doc (tweeted_alerts st))\<rparr>;
                         fs2 = fs1\<lparr>comparison_files :=
                                 (comparison_files fs1)(Base \<mapsto> Doc result)\<rparr>
                     in Inr (fs2, tweets st)))))))"

text \<open>
  The scheduler starts the script again and again. A run that raised has written
  nothing, so the next run finds the files of the run before it.
\<close>

definition no_files :: "('a, 'e) files" where
  "no_files = \<lparr>comparison_files = (\<lambda>p. None), tweet_log = None\<rparr>"

fun glofas_runs ::
  "((nat \<Rightarrow> string) \<times> glofas_alert list) list \<Rightarrow> (glofas_alert, glofas_entry) files
     \<Rightarrow> (glofas_alert, glofas_entry) files" where
  "glofas_runs [] fs = fs"
| "glofas_runs (r # rs) fs =
     glofas_runs rs
       (case glofas_main (fst r) (snd r) fs of Inl e \<Rightarrow> fs | Inr out \<Rightarrow> fst out)"

fun live_runs ::
  "((nat \<Rightarrow> string) \<times> log_key set \<times> live_alert list) list \<Rightarrow> (live_alert, live_entry) files
     \<Rightarrow> (live_alert, live_entry) files" where
  "live_runs [] fs = fs"
| "live_runs (r # rs) fs =
     live_runs rs
       (case live_main (fst r) (fst (snd r)) (snd (snd r)) fs of
          Inl e \<Rightarrow> fs
        | Inr out \<Rightarrow> fst out)"

subsection \<open>The invariant of the tweet log\<close>

text \<open>
  \<open>H\<close> holds the alert lists of runs. The site that a key of the tweet log prints was
  notifiable in \<open>H\<close> when the dictionary of one of these lists has the site at a
  tweet-worthy level.
\<close>

definition site_was_notifiable :: "'a alert_scheme list set \<Rightarrow> log_key \<Rightarrow> bool" where
  "site_was_notifiable H k =
     (\<exists>alerts\<in>H. \<exists>a. map_of (build_alert_dict alerts) (site_of_log_key k) = Some a
                       \<and> dynamic_level a \<in> set TWEET_LEVELS)"

text \<open>
  What the runs \<open>H\<close> leave behind: a comparison file, if there is one, holds the alerts
  of one of the runs, and a tweet log, if there is one, is a readable document whose
  keys all belong to sites that were notifiable in \<open>H\<close>.
\<close>

definition files_invariant ::
  "'a alert_scheme list set \<Rightarrow> ('a alert_scheme, 'e) files \<Rightarrow> bool" where
  "files_invariant H fs =
     ((\<forall>d. comparison_files fs Base = Some d \<longrightarrow>
          (\<exists>alerts\<in>H. \<exists>m. d = Doc \<lparr>meta = m, doc_alerts = alerts\<rparr>))
      \<and> (\<forall>l. tweet_log fs = Some l \<longrightarrow>
          (\<exists>led. l = Doc led \<and> (\<forall>k\<in>dom led. site_was_notifiable H k))))"

subsection \<open>The relevance score of a news article\<close>

text \<open>
  What the chat completion request does: it raises, or it returns a response whose
  first choice has a message content, a string or \<^verbatim>\<open>None\<close>. The prompt is built from the
  title and the summary and reaches the result only through this reply.
\<close>

datatype completion = Request_raises | Content "string option"

definition is_space :: "char \<Rightarrow> bool" where
  "is_space c = (c \<in> set [CHR 0x20, CHR 0x09, CHR 0x0A, CHR 0x0B, CHR 0x0C, CHR 0x0D,
                            CHR 0x1C, CHR 0x1D, CHR 0x1E, CHR 0x1F, CHR 0x85, CHR 0xA0])"

text \<open>\<^verbatim>\<open>s.strip()\<close>: the white space among the code points below 256.\<close>

definition strip :: "string \<Rightarrow> string" where
  "strip s = rev (dropWhile is_space (rev (dropWhile is_space s)))"

definition digit_of :: "char \<Rightarrow> nat option" where
  "digit_of c =
     (let n = (of_char c :: nat) in if 48 \<le> n \<and> n \<le> 57 then Some (n - 48) else None)"

text \<open>
  The digits of a decimal literal after its first digit: a single underscore may stand
  between two digits.
\<close>

fun py_digits :: "nat \<Rightarrow> string \<Rightarrow> nat option" where
  "py_digits acc [] = Some acc"
| "py_digits acc [c] = (case digit_of c of None \<Rightarrow> None | Some d \<Rightarrow> Some (acc * 10 + d))"
| "py_digits acc (c # c' # cs) =
     (if c = CHR ''_''
      then (case digit_of c' of None \<Rightarrow> None | Some d \<Rightarrow> py_digits (acc * 10 + d) cs)
      else (case digit_of c of None \<Rightarrow> None | Some d \<Rightarrow> py_digits (acc * 10 + d) (c' # cs)))"

definition py_nat :: "string \<Rightarrow> nat option" where
  "py_nat s =
     (case s of
        [] \<Rightarrow> None
      | c # cs \<Rightarrow> (case digit_of c of None \<Rightarrow> None | Some d \<Rightarrow> py_digits d cs))"

text \<open>
  \<^verbatim>\<open>int(s)\<close> on text of code points below 256: white space around, a sign, the decimal
  digits 0 to 9; \<open>None\<close> is \<^verbatim>\<open>ValueError\<close>. The limit that \<^verbatim>\<open>int\<close> puts on the number of digits
  (another \<^verbatim>\<open>ValueError\<close>) is not modelled.
\<close>

definition py_int :: "string \<Rightarrow> int option" where
  "py_int s =
     (case strip s of
        [] \<Rightarrow> None
      | c # cs \<Rightarrow>
          if c = CHR ''-'' then map_option (\<lambda>n. - int n) (py_nat cs)
          else if c = CHR ''+'' then map_option int (py_nat cs)
          else map_option int (py_nat (c # cs)))"

text \<open>
  The body of \<^verbatim>\<open>get_news_relevance_score\<close> from its \<^verbatim>\<open>try\<close> on; \<^verbatim>\<open>except Exception\<close>
  turns every failure inside it into the score 0.
\<close>

definition get_news_relevance_score :: "completion \<Rightarrow> int" where
  "get_news_relevance_score reply =
     (case reply of
        Request_raises \<Rightarrow> 0
      | Content None \<Rightarrow> 0
      | Content (Some content) \<Rightarrow>
         (let score_text = strip content in
          (case py_int score_text of
             None \<Rightarrow> 0
           | Some score \<Rightarrow> (if 0 \<le> score \<and> score \<le> 10 then score else 0))))"

subsection \<open>Example inputs\<close>

text \<open>
  A comparison file with all five numbered snapshots beside it, and one with a sixth
  numbered snapshot; each file holds its own number, the comparison file 0.
\<close>

definition full_history :: "snapshot_path \<rightharpoonup> nat" where
  "full_history p =
     (case p of Base \<Rightarrow> Some 0 | Numbered j \<Rightarrow> if 1 \<le> j \<and> j \<le> 5 then Some j else None)"

definition stray_history :: "snapshot_path \<rightharpoonup> nat" where
  "stray_history p =
     (case p of Base \<Rightarrow> Some 0 | Numbered j \<Rightarrow> if 1 \<le> j \<and> j \<le> 6 then Some j else None)"

text \<open>One site of each evaluator, at the levels Medium and Low.\<close>

definition glofas_site :: "string \<Rightarrow> glofas_alert" where
  "glofas_site lvl =
     \<lparr>alert_id = ''g1'', name = ''Toledo'', latitude = 40, longitude = - 4,
      raw_dynamic_score = 20, dynamic_level = lvl,
      country = ''ES'', headline_city = ''Toledo'', river_name = ''Tajo'',
      return_period = Some 2, lead_time_days = Some 3, nearest_cities = []\<rparr>"

definition live_site :: "string \<Rightarrow> live_alert" where
  "live_site lvl =
     \<lparr>alert_id = ''7'', name = ''Arganda'', latitude = 40, longitude = - 3,
      raw_dynamic_score = 4, dynamic_level = lvl,
      base_risk = 9, rain_h_mm = 30, humidity_avg = 80, soil_moisture_avg = 1 / 2,
      rain_mult = 3 / 10, soil_mult = 1, humidity_mult = 1\<rparr>"

definition stamps :: "nat \<Rightarrow> string" where
  "stamps i = (if i = 0 then ''2025-01-01T00:00:00Z'' else ''2025-01-01T00:00:30Z'')"

text \<open>
  The files a run of each evaluator left behind when it saw the site at Medium and had
  no tweet log yet to write to.
\<close>

definition glofas_files_medium :: "(glofas_alert, glofas_entry) files" where
  "glofas_files_medium =
     \<lparr>comparison_files =
        (\<lambda>p. if p = Base then Some (Doc \<lparr>meta = None, doc_alerts = [glofas_site ''Medium'']\<rparr>)
             else None),
      tweet_log = None\<rparr>"

definition live_files_medium :: "(live_alert, live_entry) files" where
  "live_files_medium =
     \<lparr>comparison_files =
        (\<lambda>p. if p = Base then Some (Doc \<lparr>meta = None, doc_alerts = [live_site ''Medium'']\<rparr>)
             else None),
      tweet_log = None\<rparr>"

section \<open>Properties\<close>

lemma list_index_LEVELS_cases:
  "list_index LEVELS ''None'' = Inr 0"
  "list_index LEVELS ''Low'' = Inr 1"
  "list_index LEVELS ''Medium'' = Inr 2"
  "list_index LEVELS ''High'' = Inr 3"
  "list_index LEVELS ''Extreme'' = Inr 4"
  by (simp_all add: LEVELS_def)

lemmas risk_constants = RAIN_UNIT_MM_def SOIL_MIN_MULT_def SOIL_MAX_MULT_def HUM_MIN_MULT_def
  HUM_MAX_MULT_def RAIN_CUTOFF_MM_def RAW_LOW_MAX_def RAW_MED_MAX_def RAW_HIGH_MAX_def

subsection \<open>The multipliers\<close>

lemma fmax_zero_cases:
  "(case fmax (Fin 0) b of Fin v \<Rightarrow> 0 \<le> v | PInf \<Rightarrow> True | _ \<Rightarrow> False)"
  by (cases b) (simp_all add: fmax_def)

lemma fmax_zero_mono: "fle a b \<Longrightarrow> fle (fmax (Fin 0) a) (fmax (Fin 0) b)"
  by (cases a; cases b) (auto simp add: fmax_def fle_def feq_def)

lemma soil_multiplier_range:
  "(case soil_multiplier x of Fin v \<Rightarrow> 95 / 100 \<le> v \<and> v \<le> 18 / 10 | _ \<Rightarrow> False)"
  by (cases x)
    (simp_all add: soil_multiplier_def fmax_def fmin_def fsub_def risk_constants Let_def)

lemma soil_multiplier_mono: "fle x y \<Longrightarrow> fle (soil_multiplier x) (soil_multiplier y)"
  by (cases x; cases y)
    (auto simp add: soil_multiplier_def fmax_def fmin_def fsub_def fle_def feq_def
      risk_constants Let_def)

lemma humidity_multiplier_range:
  "(case humidity_multiplier x of
      Inr (Fin v) \<Rightarrow> 1 \<le> v \<and> v \<le> 105 / 100
    | _ \<Rightarrow> False)"
  by (cases x)
    (simp_all add: humidity_multiplier_def fmax_def fmin_def fsub_def risk_constants Let_def)

lemma humidity_multiplier_mono:
  "fle x y \<Longrightarrow> humidity_multiplier x = Inr u \<Longrightarrow> humidity_multiplier y = Inr v \<Longrightarrow> fle u v"
  by (cases x; cases y)
    (auto simp add: humidity_multiplier_def fmax_def fmin_def fsub_def fle_def feq_def
      risk_constants Let_def split: if_splits)

lemma rainfall_multiplier_cases:
  "(case rainfall_multiplier x of
      Inr (Fin v) \<Rightarrow> 0 \<le> v
    | Inr PInf \<Rightarrow> True
    | _ \<Rightarrow> False)"
  by (cases x) (simp_all add: rainfall_multiplier_def fmax_def risk_constants)

lemma rainfall_multiplier_mono:
  "fle x y \<Longrightarrow> rainfall_multiplier x = Inr u \<Longrightarrow> rainfall_multiplier y = Inr v \<Longrightarrow> fle u v"
  by (cases x; cases y)
    (auto simp add: rainfall_multiplier_def fmax_def fle_def feq_def risk_constants
      split: if_splits)

lemma fmul_not_negative:
  "\<not> fless x (Fin 0) \<Longrightarrow> \<not> fless y (Fin 0) \<Longrightarrow> \<not> fless (fmul x y) (Fin 0)"
  by (cases x; cases y) (auto simp add: not_less mult_nonneg_nonneg)

lemma fmax_zero_not_negative: "\<not> fless (fmax (Fin 0) b) (Fin 0)"
  by (cases b) (auto simp add: fmax_def)

lemma soil_multiplier_not_negative: "\<not> fless (soil_multiplier x) (Fin 0)"
  using soil_multiplier_range [of x] by (auto split: pyfloat.splits)

lemma humidity_multiplier_Inr: "\<exists>h. humidity_multiplier x = Inr h \<and> \<not> fless h (Fin 0)"
  using humidity_multiplier_range [of x] by (auto split: sum.splits pyfloat.splits)

lemma rainfall_multiplier_Inr: "\<exists>r. rainfall_multiplier x = Inr r \<and> \<not> fless r (Fin 0)"
  using rainfall_multiplier_cases [of x] by (auto split: sum.splits pyfloat.splits)

subsection \<open>The two branches of the risk model\<close>

lemma calculate_cutoff:
  "fless rain RAIN_CUTOFF_MM \<Longrightarrow>
   calculate_dynamic_risk_raw b rain rh soil =
     Inr (Fin 0, ''None'', Fin 0, soil_multiplier (Fin 0), Fin 1)"
  by (simp add: calculate_dynamic_risk_raw_def humidity_multiplier_def fmax_def fmin_def
      fsub_def risk_constants Let_def)

lemma calculate_main:
  "\<not> fless rain RAIN_CUTOFF_MM \<Longrightarrow> rainfall_multiplier rain = Inr r \<Longrightarrow>
   humidity_multiplier rh = Inr h \<Longrightarrow>
   calculate_dynamic_risk_raw b rain rh soil =
     Inr (round_float (fmul (fmul (fmul (fmax (Fin 0) b) r) (soil_multiplier soil)) h) 3,
          raw_level (fmul (fmul (fmul (fmax (Fin 0) b) r) (soil_multiplier soil)) h),
          r, soil_multiplier soil, h)"
  by (simp add: calculate_dynamic_risk_raw_def Let_def)

lemma calculate_cases:
  "(fless rain RAIN_CUTOFF_MM
      \<and> calculate_dynamic_risk_raw b rain rh soil =
          Inr (Fin 0, ''None'', Fin 0, soil_multiplier (Fin 0), Fin 1))
   \<or> (\<exists>r h. \<not> fless rain RAIN_CUTOFF_MM
      \<and> rainfall_multiplier rain = Inr r \<and> humidity_multiplier rh = Inr h
      \<and> calculate_dynamic_risk_raw b rain rh soil =
          Inr (round_float (fmul (fmul (fmul (fmax (Fin 0) b) r) (soil_multiplier soil)) h) 3,
               raw_level (fmul (fmul (fmul (fmax (Fin 0) b) r) (soil_multiplier soil)) h),
               r, soil_multiplier soil, h))"
proof (cases "fless rain RAIN_CUTOFF_MM")
  case True
  then show ?thesis by (simp add: calculate_cutoff)
next
  case False
  obtain r where r: "rainfall_multiplier rain = Inr r"
    using rainfall_multiplier_Inr [of rain] by blast
  obtain h where h: "humidity_multiplier rh = Inr h"
    using humidity_multiplier_Inr [of rh] by blast
  show ?thesis
    using False r h calculate_main [OF False r h, of b soil] by simp
qed

lemma raw_score_not_negative:
  assumes r: "rainfall_multiplier rain = Inr r" and h: "humidity_multiplier rh = Inr h"
  shows "\<not> fless (fmul (fmul (fmul (fmax (Fin 0) b) r) (soil_multiplier soil)) h) (Fin 0)"
proof -
  have "\<not> fless r (Fin 0)" using rainfall_multiplier_Inr [of rain] r by auto
  moreover have "\<not> fless h (Fin 0)" using humidity_multiplier_Inr [of rh] h by auto
  ultimately show ?thesis
    by (intro fmul_not_negative fmax_zero_not_negative soil_multiplier_not_negative)
qed

lemma calculate_classifies:
  "\<exists>z r s h. calculate_dynamic_risk_raw b rain rh soil =
       Inr (round_float z 3, raw_level z, r, s, h) \<and> \<not> fless z (Fin 0)"
proof -
  consider "fless rain RAIN_CUTOFF_MM"
      "calculate_dynamic_risk_raw b rain rh soil =
         Inr (Fin 0, ''None'', Fin 0, soil_multiplier (Fin 0), Fin 1)"
    | r h where "rainfall_multiplier rain = Inr r" "humidity_multiplier rh = Inr h"
      "calculate_dynamic_risk_raw b rain rh soil =
          Inr (round_float (fmul (fmul (fmul (fmax (Fin 0) b) r) (soil_multiplier soil)) h) 3,
               raw_level (fmul (fmul (fmul (fmax (Fin 0) b) r) (soil_multiplier soil)) h),
               r, soil_multiplier soil, h)"
    using calculate_cases [of rain b rh soil] by blast
  then show ?thesis
  proof cases
    case 1
    have "round_float (Fin 0) 3 = Fin 0"
      by (simp add: round_float_def py_round_def round_half_even_def)
    moreover have "raw_level (Fin 0) = ''None''" by (simp add: raw_level_def feq_def)
    moreover have "\<not> fless (Fin 0) (Fin 0)" by simp
    ultimately show ?thesis using 1(2) by metis
  next
    case 2
    show ?thesis
      using 2(3) raw_score_not_negative [OF 2(1) 2(2), of b soil] by blast
  qed
qed

subsection \<open>The level classification\<close>

lemma raw_level_in_LEVELS: "raw_level s \<in> set LEVELS"
  by (simp add: raw_level_def LEVELS_def)

lemma return_period_to_level_in_LEVELS: "return_period_to_level rp \<in> set LEVELS"
  by (simp add: return_period_to_level_def LEVELS_def split: option.splits)

lemma raw_level_mono:
  "\<not> fless x (Fin 0) \<Longrightarrow> fle x y \<Longrightarrow> level_le (raw_level x) (raw_level y)"
  by (cases x; cases y)
    (auto simp add: raw_level_def level_le_def list_index_LEVELS_cases risk_constants
      fle_def feq_def)

lemma return_period_to_level_mono:
  "fle p q \<Longrightarrow> level_le (return_period_to_level (Some p)) (return_period_to_level (Some q))"
  by (cases p; cases q)
    (auto simp add: return_period_to_level_def level_le_def list_index_LEVELS_cases
      fge_def fle_def feq_def)

lemma level_le_None: "lv \<in> set LEVELS \<Longrightarrow> level_le ''None'' lv"
  by (auto simp add: LEVELS_def level_le_def list_index_LEVELS_cases)

lemma level_le_Extreme: "lv \<in> set LEVELS \<Longrightarrow> level_le lv ''Extreme''"
  by (auto simp add: LEVELS_def level_le_def list_index_LEVELS_cases)

text \<open>
  Two raw scores are in the order of their levels when the second is NaN or infinite
  (its level is Extreme) or both are finite, not negative and in order. The product of
  the clamped base risk and the rain multiplier is in that order when the inputs are,
  and a further factor from a multiplier, which is finite and positive, keeps it so.
\<close>

lemma fmul_first_mono:
  assumes "\<not> fless B (Fin 0)" "B \<noteq> NaN" "r \<noteq> NaN" "\<not> fless r (Fin 0)"
    and "B' \<noteq> NaN" "r' \<noteq> NaN" "fle B B'" "fle r r'"
  shows "fmul B' r' = NaN \<or> fmul B' r' = PInf
         \<or> (\<exists>u v. fmul B r = Fin u \<and> fmul B' r' = Fin v \<and> 0 \<le> u \<and> u \<le> v)"
  using assms
  by (cases B; cases B'; cases r; cases r')
    (auto simp add: fle_def feq_def not_less mult_mono)

lemma fmul_factor_mono:
  assumes "y = NaN \<or> y = PInf \<or> (\<exists>u v. x = Fin u \<and> y = Fin v \<and> 0 \<le> u \<and> u \<le> v)"
    and "0 < c" "c \<le> d"
  shows "fmul y (Fin d) = NaN \<or> fmul y (Fin d) = PInf
         \<or> (\<exists>u v. fmul x (Fin c) = Fin u \<and> fmul y (Fin d) = Fin v \<and> 0 \<le> u \<and> u \<le> v)"
  using assms by (cases x; cases y) (auto simp add: mult_mono)

lemma raw_level_top:
  assumes "y = NaN \<or> y = PInf \<or> (\<exists>u v. x = Fin u \<and> y = Fin v \<and> 0 \<le> u \<and> u \<le> v)"
  shows "level_le (raw_level x) (raw_level y)"
proof -
  consider "y = NaN \<or> y = PInf" | u v where "x = Fin u" "y = Fin v" "0 \<le> u" "u \<le> v"
    using assms by blast
  then show ?thesis
  proof cases
    case 1
    then have "raw_level y = ''Extreme''"
      by (auto simp add: raw_level_def feq_def risk_constants)
    then show ?thesis by (simp add: level_le_Extreme raw_level_in_LEVELS)
  next
    case 2
    then show ?thesis
      by (intro raw_level_mono) (auto simp add: fle_def feq_def)
  qed
qed

lemma raw_score_mono:
  assumes b: "fle b b'" and rain: "fle rain rain'" and rh: "fle rh rh'"
    and soil: "fle soil soil'"
    and r: "rainfall_multiplier rain = Inr r" and r': "rainfall_multiplier rain' = Inr r'"
    and h: "humidity_multiplier rh = Inr h" and h': "humidity_multiplier rh' = Inr h'"
  shows "level_le
           (raw_level (fmul (fmul (fmul (fmax (Fin 0) b) r) (soil_multiplier soil)) h))
           (raw_level (fmul (fmul (fmul (fmax (Fin 0) b') r') (soil_multiplier soil')) h'))"
proof -
  obtain s s' where s: "soil_multiplier soil = Fin s" "soil_multiplier soil' = Fin s'"
      "0 < s" "s \<le> s'"
    using soil_multiplier_range [of soil] soil_multiplier_range [of soil']
      soil_multiplier_mono [OF soil]
    by (auto simp add: fle_def feq_def split: pyfloat.splits)
  obtain c c' where c: "h = Fin c" "h' = Fin c'" "0 < c" "c \<le> c'"
    using humidity_multiplier_range [of rh] humidity_multiplier_range [of rh']
      humidity_multiplier_mono [OF rh h h'] h h'
    by (auto simp add: fle_def feq_def split: pyfloat.splits sum.splits)
  have B: "\<not> fless (fmax (Fin 0) b) (Fin 0)" "fmax (Fin 0) b \<noteq> NaN"
      "fmax (Fin 0) b' \<noteq> NaN"
    using fmax_zero_cases [of b] fmax_zero_cases [of b']
    by (auto split: pyfloat.splits)
  have R: "\<not> fless r (Fin 0)" "r \<noteq> NaN" "r' \<noteq> NaN"
    using rainfall_multiplier_cases [of rain] rainfall_multiplier_cases [of rain'] r r'
    by (auto split: pyfloat.splits sum.splits)
  note 1 = fmul_first_mono [OF B(1) B(2) R(2) R(1) B(3) R(3) fmax_zero_mono [OF b]
      rainfall_multiplier_mono [OF rain r r']]
  note 2 = fmul_factor_mono [OF 1 s(3) s(4)]
  note 3 = fmul_factor_mono [OF 2 c(3) c(4)]
  show ?thesis
    unfolding s c by (rule raw_level_top [OF 3])
qed

lemma calculate_total:
  "\<exists>sc lv r s h. calculate_dynamic_risk_raw b rain rh soil = Inr (sc, lv, r, s, h)
     \<and> lv \<in> set LEVELS"
  using calculate_cases [of rain b rh soil] raw_level_in_LEVELS
  by (auto simp add: LEVELS_def)

lemma calculate_inputs_mono:
  assumes b: "fle b b'" and rain: "fle rain rain'" and rh: "fle rh rh'"
    and soil: "fle soil soil'"
    and c: "calculate_dynamic_risk_raw b rain rh soil = Inr (sc, lv, m)"
    and c': "calculate_dynamic_risk_raw b' rain' rh' soil' = Inr (sc', lv', m')"
  shows "level_le lv lv'"
proof (cases "fless rain RAIN_CUTOFF_MM")
  case True
  then have "lv = ''None''" using c by (simp add: calculate_cutoff)
  moreover have "lv' \<in> set LEVELS"
    using calculate_total [of b' rain' rh' soil'] c' by auto
  ultimately show ?thesis by (simp add: level_le_None)
next
  case False
  then have F': "\<not> fless rain' RAIN_CUTOFF_MM"
    using rain by (cases rain; cases rain') (auto simp add: fle_def feq_def risk_constants)
  obtain r where r: "rainfall_multiplier rain = Inr r"
    using rainfall_multiplier_Inr [of rain] by blast
  obtain h where h: "humidity_multiplier rh = Inr h"
    using humidity_multiplier_Inr [of rh] by blast
  obtain r' where r': "rainfall_multiplier rain' = Inr r'"
    using rainfall_multiplier_Inr [of rain'] by blast
  obtain h' where h': "humidity_multiplier rh' = Inr h'"
    using humidity_multiplier_Inr [of rh'] by blast
  have "lv = raw_level (fmul (fmul (fmul (fmax (Fin 0) b) r) (soil_multiplier soil)) h)"
    using c calculate_main [OF False r h, of b soil] by simp
  moreover have
    "lv' = raw_level (fmul (fmul (fmul (fmax (Fin 0) b') r') (soil_multiplier soil')) h')"
    using c' calculate_main [OF F' r' h', of b' soil'] by simp
  ultimately show ?thesis
    using raw_score_mono [OF b rain rh soil r r' h h'] by simp
qed

text \<open>
  C4: the level classification is total and monotonic. For all four inputs, finite or
  not, negative or zero, \<^verbatim>\<open>calculate_dynamic_risk_raw\<close> returns without raising: its level
  is the band chain's level of a raw score that is never negative, and the band chain
  gives every float one of the five levels and is monotonic on all the scores that are
  not negative. So a call on larger inputs never gets a lower level. Every return period
  (finite or not, negative or zero, also an unknown one) gets one of the five levels,
  monotonically.
\<close>

theorem level_classification_total_and_monotone:
  "(\<exists>z r sm h. calculate_dynamic_risk_raw b rain rh soil =
        Inr (round_float z 3, raw_level z, r, sm, h) \<and> \<not> fless z (Fin 0))
   \<and> raw_level s \<in> set LEVELS
   \<and> return_period_to_level rp \<in> set LEVELS
   \<and> (\<not> fless x (Fin 0) \<and> fle x y \<longrightarrow> level_le (raw_level x) (raw_level y))
   \<and> (fle b1 b2 \<and> fle rain1 rain2 \<and> fle rh1 rh2 \<and> fle soil1 soil2
        \<and> calculate_dynamic_risk_raw b1 rain1 rh1 soil1 = Inr (sc1, lv1, m1)
        \<and> calculate_dynamic_risk_raw b2 rain2 rh2 soil2 = Inr (sc2, lv2, m2)
        \<longrightarrow> level_le lv1 lv2)
   \<and> (fle p q \<longrightarrow>
        level_le (return_period_to_level (Some p)) (return_period_to_level (Some q)))"
  using calculate_classifies [of b rain rh soil] raw_level_in_LEVELS [of s]
    return_period_to_level_in_LEVELS [of rp] raw_level_mono [of x y]
    calculate_inputs_mono [of b1 b2 rain1 rain2 rh1 rh2 soil1 soil2 sc1 lv1 m1 sc2 lv2 m2]
    return_period_to_level_mono [of p q]
  by blast

theorem level_classification_witness:
  "fle (Fin 10) (Fin 10) \<and> fle (Fin 100) (Fin 200) \<and> fle (Fin 0) (Fin 0)
   \<and> calculate_dynamic_risk_raw (Fin 10) (Fin 100) (Fin 0) (Fin 0) =
       Inr (Fin (19 / 2), ''Medium'', Fin 1, Fin (19 / 20), Fin 1)
   \<and> calculate_dynamic_risk_raw (Fin 10) (Fin 200) (Fin 0) (Fin 0) =
       Inr (Fin 19, ''High'', Fin 2, Fin (19 / 20), Fin 1)
   \<and> level_le ''Medium'' ''High''
   \<and> \<not> fless (Fin 3) (Fin 0) \<and> fle (Fin 3) PInf
   \<and> level_le (raw_level (Fin 3)) (raw_level PInf)
   \<and> fle (Fin (- 1)) (Fin 2)
   \<and> level_le (return_period_to_level (Some (Fin (- 1))))
        (return_period_to_level (Some (Fin 2)))"
proof -
  have c1: "calculate_dynamic_risk_raw (Fin 10) (Fin 100) (Fin 0) (Fin 0) =
         Inr (Fin (19 / 2), ''Medium'', Fin 1, Fin (19 / 20), Fin 1)"
    by (simp add: calculate_dynamic_risk_raw_def rainfall_multiplier_def soil_multiplier_def
        humidity_multiplier_def raw_level_def round_float_def py_round_def round_half_even_def
        fmax_def fmin_def fsub_def feq_def risk_constants Let_def)
  have c2: "calculate_dynamic_risk_raw (Fin 10) (Fin 200) (Fin 0) (Fin 0) =
         Inr (Fin 19, ''High'', Fin 2, Fin (19 / 20), Fin 1)"
    by (simp add: calculate_dynamic_risk_raw_def rainfall_multiplier_def soil_multiplier_def
        humidity_multiplier_def raw_level_def round_float_def py_round_def round_half_even_def
        fmax_def fmin_def fsub_def feq_def risk_constants Let_def)
  show ?thesis
    using c1 c2
      level_classification_total_and_monotone
        [where x = "Fin 3" and y = PInf and p = "Fin (- 1)" and q = "Fin 2"
          and ?b1.0 = "Fin 10" and ?b2.0 = "Fin 10" and ?rain1.0 = "Fin 100"
          and ?rain2.0 = "Fin 200" and ?rh1.0 = "Fin 0" and ?rh2.0 = "Fin 0"
          and ?soil1.0 = "Fin 0" and ?soil2.0 = "Fin 0"
          and ?sc1.0 = "Fin (19 / 2)" and ?lv1.0 = "''Medium''"
          and ?m1.0 = "(Fin 1, Fin (19 / 20), Fin 1)"
          and ?sc2.0 = "Fin 19" and ?lv2.0 = "''High''"
          and ?m2.0 = "(Fin 2, Fin (19 / 20), Fin 1)"]
    by (simp add: fle_def feq_def)
qed

subsection \<open>No rain, no risk\<close>

text \<open>
  C9, as the claim states it, fails: with the base risk \<open>+inf\<close> and a rainfall of 0 mm the
  product \<^verbatim>\<open>inf * 0.0\<close> is NaN, which is not equal to 0 and below no band limit, so the
  raw score is NaN and the level Extreme.
\<close>

theorem infinite_base_risk_without_rain_is_extreme:
  "calculate_dynamic_risk_raw PInf (Fin 0) (Fin 50) (Fin (1 / 2)) =
     Inr (NaN, ''Extreme'', Fin 0, Fin (11 / 8), Fin (41 / 40))"
  by (simp add: calculate_dynamic_risk_raw_def rainfall_multiplier_def soil_multiplier_def
      humidity_multiplier_def raw_level_def round_float_def
      fmax_def fmin_def fsub_def feq_def risk_constants Let_def)

text \<open>
  C9 (amended): for every base risk other than \<open>+inf\<close> (a finite one, and also \<open>-inf\<close> and
  NaN, which \<^verbatim>\<open>max(0.0, base_risk)\<close> replaces by 0.0) and for every humidity and soil
  moisture (finite or not), the risk model with a rainfall of 0 mm returns the raw score
  0 and the level None.
\<close>

theorem zero_rain_gives_none:
  "b \<noteq> PInf \<Longrightarrow>
   \<exists>h. humidity_multiplier rh = Inr h
     \<and> calculate_dynamic_risk_raw b (Fin 0) rh soil =
         Inr (Fin 0, ''None'', Fin 0, soil_multiplier soil, h)"
proof -
  assume b: "b \<noteq> PInf"
  obtain h where h: "humidity_multiplier rh = Inr h" "h \<noteq> NaN" "h \<noteq> PInf" "h \<noteq> NInf"
    using humidity_multiplier_range [of rh] by (auto split: sum.splits pyfloat.splits)
  obtain s where s: "soil_multiplier soil = Fin s"
    using soil_multiplier_range [of soil] by (auto split: pyfloat.splits)
  obtain c where c: "h = Fin c" using h by (cases h) auto
  have r: "rainfall_multiplier (Fin 0) = Inr (Fin 0)"
    by (simp add: rainfall_multiplier_def fmax_def risk_constants)
  have B: "fmul (fmax (Fin 0) b) (Fin 0) = Fin 0"
    using b by (cases b) (auto simp add: fmax_def)
  have "\<not> fless (Fin 0) RAIN_CUTOFF_MM" by (simp add: risk_constants)
  from calculate_main [OF this r h(1), of b soil]
  have "calculate_dynamic_risk_raw b (Fin 0) rh soil =
         Inr (Fin 0, ''None'', Fin 0, soil_multiplier soil, h)"
    by (simp add: B s c raw_level_def feq_def round_float_def py_round_def round_half_even_def)
  with h(1) show ?thesis by blast
qed

theorem zero_rain_witness:
  "Fin 12 \<noteq> PInf
   \<and> calculate_dynamic_risk_raw (Fin 12) (Fin 0) (Fin 50) (Fin (1 / 2)) =
       Inr (Fin 0, ''None'', Fin 0, Fin (11 / 8), Fin (41 / 40))
   \<and> NaN \<noteq> PInf
   \<and> calculate_dynamic_risk_raw NaN (Fin 0) PInf NaN =
       Inr (Fin 0, ''None'', Fin 0, Fin (9 / 5), Fin (21 / 20))"
  using zero_rain_gives_none [of "Fin 12" "Fin 50" "Fin (1 / 2)"]
    zero_rain_gives_none [of NaN PInf NaN]
  by (simp add: humidity_multiplier_def soil_multiplier_def fmax_def fmin_def fsub_def
      risk_constants Let_def)

subsection \<open>The relevance score\<close>

text \<open>
  C10: whatever the scoring request does, \<^verbatim>\<open>get_news_relevance_score\<close> returns an integer
  from 0 to 10; it returns 0 when the request raises, when the reply has no text, when
  the text is not an integer and when the integer is outside 0 to 10, and the integer
  itself otherwise. The title and the summary reach the result through the reply only.
\<close>

theorem relevance_score_in_range:
  "0 \<le> get_news_relevance_score reply \<and> get_news_relevance_score reply \<le> 10
   \<and> get_news_relevance_score Request_raises = 0
   \<and> get_news_relevance_score (Content None) = 0
   \<and> (py_int (strip t) = None \<longrightarrow> get_news_relevance_score (Content (Some t)) = 0)
   \<and> (py_int (strip u) = Some m \<and> (m < 0 \<or> 10 < m) \<longrightarrow>
        get_news_relevance_score (Content (Some u)) = 0)
   \<and> (py_int (strip v) = Some n \<and> 0 \<le> n \<and> n \<le> 10 \<longrightarrow>
        get_news_relevance_score (Content (Some v)) = n)"
  by (auto simp: get_news_relevance_score_def Let_def split: completion.splits option.splits)

theorem relevance_score_witness:
  "py_int (strip ''seven'') = None
   \<and> get_news_relevance_score (Content (Some ''seven'')) = 0
   \<and> py_int (strip ''11'') = Some 11
   \<and> get_news_relevance_score (Content (Some ''11'')) = 0
   \<and> py_int (strip '' 7'') = Some 7
   \<and> get_news_relevance_score (Content (Some '' 7'')) = 7"
proof -
  have a: "py_int (strip ''seven'') = None"
    by (simp add: py_int_def strip_def is_space_def py_nat_def digit_of_def)
  have b: "py_int (strip ''11'') = Some 11"
    by (simp add: py_int_def strip_def is_space_def py_nat_def digit_of_def)
  have c: "py_int (strip '' 7'') = Some 7"
    by (simp add: py_int_def strip_def is_space_def py_nat_def digit_of_def)
  show ?thesis
    using a b c
      relevance_score_in_range [where t = "''seven''" and u = "''11''" and m = 11
        and v = "'' 7''" and n = 7]
    by simp
qed

subsection \<open>Rotation\<close>

lemma shift_step_apply:
  "shift_step i fs p =
     (if p = Numbered (Suc i) then (case fs (Numbered i) of Some c \<Rightarrow> Some c | None \<Rightarrow> fs (Numbered (Suc i)))
      else if p = Numbered i then None
      else fs p)"
  by (auto simp: shift_step_def os_replace_def os_remove_def Let_def split: option.splits)

lemma shift_loop_apply:
  "fold shift_step (rev [1 ..< Suc n]) fs p =
     (case p of
        Base \<Rightarrow> fs Base
      | Numbered j \<Rightarrow>
          if n = 0 \<or> j = 0 \<or> Suc n < j then fs (Numbered j)
          else if j = 1 then None
          else if j = Suc n then (case fs (Numbered n) of Some c \<Rightarrow> Some c | None \<Rightarrow> fs (Numbered (Suc n)))
          else fs (Numbered (j - 1)))"
proof (induction n arbitrary: fs p)
  case 0
  then show ?case by (simp split: snapshot_path.splits)
next
  case (Suc n)
  have "fold shift_step (rev [1 ..< Suc (Suc n)]) fs p
        = fold shift_step (rev [1 ..< Suc n]) (shift_step (Suc n) fs) p"
    by simp
  also have "\<dots> = (case p of
        Base \<Rightarrow> fs Base
      | Numbered j \<Rightarrow>
          if j = 0 \<or> Suc (Suc n) < j then fs (Numbered j)
          else if j = 1 then None
          else if j = Suc (Suc n) then (case fs (Numbered (Suc n)) of Some c \<Rightarrow> Some c | None \<Rightarrow> fs (Numbered (Suc (Suc n))))
          else fs (Numbered (j - 1)))"
    unfolding Suc.IH
    by (cases p) (auto simp: shift_step_apply split: option.splits)
  finally show ?case by (simp split: snapshot_path.splits)
qed

lemma rotate_apply:
  "rotate_comparison_snapshots max_history fs p =
     (case p of
        Base \<Rightarrow> None
      | Numbered j \<Rightarrow>
          if j = 1 then
            (case fs Base of
               Some b \<Rightarrow> Some b
             | None \<Rightarrow> if 2 \<le> nat max_history then None else fs (Numbered 1))
          else if j = 0 \<or> nat max_history < j then fs (Numbered j)
          else if j = nat max_history then
            (case fs (Numbered (nat max_history - 1)) of
               Some c \<Rightarrow> Some c
             | None \<Rightarrow> fs (Numbered (nat max_history)))
          else fs (Numbered (j - 1)))"
proof -
  define fs1 where "fs1 = fold shift_step (rev [1 ..< nat max_history]) fs"
  have fs1: "fs1 q =
     (case q of
        Base \<Rightarrow> fs Base
      | Numbered j \<Rightarrow>
          if nat max_history \<le> 1 \<or> j = 0 \<or> nat max_history < j then fs (Numbered j)
          else if j = 1 then None
          else if j = nat max_history then
            (case fs (Numbered (nat max_history - 1)) of
               Some c \<Rightarrow> Some c
             | None \<Rightarrow> fs (Numbered (nat max_history)))
          else fs (Numbered (j - 1)))" for q
  proof (cases "nat max_history")
    case 0
    then show ?thesis by (simp add: fs1_def split: snapshot_path.splits)
  next
    case (Suc n)
    show ?thesis
      unfolding fs1_def Suc shift_loop_apply
      by (simp split: snapshot_path.splits)
  qed
  have "rotate_comparison_snapshots max_history fs p =
          (if fs1 Base \<noteq> None
           then os_replace Base (Numbered 1)
                  (if fs1 (Numbered 1) \<noteq> None then os_remove (Numbered 1) fs1 else fs1) p
           else fs1 p)"
    by (simp add: rotate_comparison_snapshots_def fs1_def Let_def)
  also have "\<dots> =
     (case p of
        Base \<Rightarrow> None
      | Numbered j \<Rightarrow>
          if j = 1 then (case fs Base of Some b \<Rightarrow> Some b | None \<Rightarrow> fs1 (Numbered 1))
          else fs1 (Numbered j))"
    by (auto simp: os_replace_def os_remove_def fs1 [of Base] split: snapshot_path.splits)
  also have "\<dots> =
     (case p of
        Base \<Rightarrow> None
      | Numbered j \<Rightarrow>
          if j = 1 then
            (case fs Base of
               Some b \<Rightarrow> Some b
             | None \<Rightarrow> if 2 \<le> nat max_history then None else fs (Numbered 1))
          else if j = 0 \<or> nat max_history < j then fs (Numbered j)
          else if j = nat max_history then
            (case fs (Numbered (nat max_history - 1)) of
               Some c \<Rightarrow> Some c
             | None \<Rightarrow> fs (Numbered (nat max_history)))
          else fs (Numbered (j - 1)))"
    by (auto simp: fs1 split: snapshot_path.splits option.splits)
  finally show ?thesis .
qed

text \<open>
  C7, as the claim states it, fails: rotation never touches a numbered snapshot beyond
  \<open>max_history\<close>, so with \<open>max_history = 5\<close> and six numbered snapshots before, six
  numbered snapshots exist after.
\<close>

theorem rotation_keeps_stray_snapshot: "card {j. 1 \<le> j \<and> rotate_comparison_snapshots 5 stray_history (Numbered j) \<noteq> None} = 6"
proof -
  have "{j. 1 \<le> j \<and> rotate_comparison_snapshots 5 stray_history (Numbered j) \<noteq> None} = {1..6}"
    by (auto simp: rotate_apply stray_history_def split: option.splits if_splits)
  then show ?thesis by simp
qed

text \<open>
  C7 (amended): rotation with \<open>max_history = N\<close> leaves the base path free; the base
  file, when there is one, lands in slot 1 (otherwise slot 1 ends empty when \<open>N \<ge> 2\<close> and
  is left alone when \<open>N \<le> 1\<close>); every file in a slot \<open>i\<close> with \<open>1 \<le> i < N\<close> lands in
  slot \<open>i + 1\<close>, which discards the old file of slot \<open>N\<close> when slot \<open>N - 1\<close> held a
  file; a missing file is skipped without error and leaves the next slot empty, except
  that slot \<open>N\<close> keeps its old file when slot \<open>N - 1\<close> was empty; slots beyond \<open>N\<close> are
  never touched. So when \<open>N \<ge> 1\<close> and no numbered snapshot beyond \<open>N\<close> existed before,
  at most \<open>N\<close> numbered snapshots exist after.
\<close>

theorem rotation_shifts_and_frees_base:
  "rotate_comparison_snapshots max_history fs Base = None
   \<and> (fs Base = Some b \<longrightarrow> rotate_comparison_snapshots max_history fs (Numbered 1) = Some b)
   \<and> (fs Base = None \<longrightarrow> rotate_comparison_snapshots max_history fs (Numbered 1) =
         (if 2 \<le> max_history then None else fs (Numbered 1)))
   \<and> (1 \<le> i \<and> int i < max_history \<and> fs (Numbered i) = Some c \<longrightarrow>
         rotate_comparison_snapshots max_history fs (Numbered (i + 1)) = Some c)
   \<and> (1 \<le> i \<and> int i + 1 < max_history \<and> fs (Numbered i) = None \<longrightarrow>
         rotate_comparison_snapshots max_history fs (Numbered (i + 1)) = None)
   \<and> (2 \<le> max_history \<and> fs (Numbered (nat max_history - 1)) = None \<longrightarrow>
         rotate_comparison_snapshots max_history fs (Numbered (nat max_history)) =
           fs (Numbered (nat max_history)))
   \<and> (2 \<le> j \<and> max_history < int j \<longrightarrow>
         rotate_comparison_snapshots max_history fs (Numbered j) = fs (Numbered j))
   \<and> (1 \<le> max_history \<and> (\<forall>j. max_history < int j \<longrightarrow> fs (Numbered j) = None) \<longrightarrow>
         {j. 1 \<le> j \<and> rotate_comparison_snapshots max_history fs (Numbered j) \<noteq> None}
           \<subseteq> {1 .. nat max_history}
         \<and> card {j. 1 \<le> j \<and> rotate_comparison_snapshots max_history fs (Numbered j) \<noteq> None}
           \<le> nat max_history)"
proof -
  have sub: "{j. 1 \<le> j \<and> rotate_comparison_snapshots max_history fs (Numbered j) \<noteq> None}
           \<subseteq> {1 .. nat max_history}"
    if "1 \<le> max_history" "\<forall>j. max_history < int j \<longrightarrow> fs (Numbered j) = None"
  proof
    fix j assume "j \<in> {j. 1 \<le> j \<and> rotate_comparison_snapshots max_history fs (Numbered j) \<noteq> None}"
    then have j: "1 \<le> j" "rotate_comparison_snapshots max_history fs (Numbered j) \<noteq> None" by auto
    have "j \<le> nat max_history"
    proof (rule ccontr)
      assume "\<not> j \<le> nat max_history"
      then have "nat max_history < j" "max_history < int j" "j \<noteq> 1" using that(1) by auto
      then show False using j(2) that(2) by (simp add: rotate_apply)
    qed
    then show "j \<in> {1 .. nat max_history}" using j(1) by simp
  qed
  have crd: "card {j. 1 \<le> j \<and> rotate_comparison_snapshots max_history fs (Numbered j) \<noteq> None}
           \<le> nat max_history"
    if "1 \<le> max_history" "\<forall>j. max_history < int j \<longrightarrow> fs (Numbered j) = None"
    using card_mono [OF _ sub [OF that]] by simp
  have c1: "rotate_comparison_snapshots max_history fs Base = None"
    by (simp add: rotate_apply)
  have c2: "rotate_comparison_snapshots max_history fs (Numbered 1) = Some b" if "fs Base = Some b"
    using that by (simp add: rotate_apply)
  have c3: "rotate_comparison_snapshots max_history fs (Numbered 1) =
         (if 2 \<le> max_history then None else fs (Numbered 1))" if "fs Base = None"
  proof -
    have "(2 \<le> nat max_history) = (2 \<le> max_history)" by linarith
    then show ?thesis using that by (simp add: rotate_apply)
  qed
  have c4: "rotate_comparison_snapshots max_history fs (Numbered (i + 1)) = Some c"
    if "1 \<le> i" "int i < max_history" "fs (Numbered i) = Some c"
  proof (cases "Suc i = nat max_history")
    case True
    then have "nat max_history - 1 = i" by simp
    then show ?thesis using that True by (simp add: rotate_apply)
  next
    case False
    then have "Suc i < nat max_history" using that(2) by linarith
    then show ?thesis using that False by (simp add: rotate_apply)
  qed
  have c5: "rotate_comparison_snapshots max_history fs (Numbered (i + 1)) = None"
    if "1 \<le> i" "int i + 1 < max_history" "fs (Numbered i) = None"
  proof -
    have "Suc i < nat max_history" using that(2) by linarith
    then show ?thesis using that by (simp add: rotate_apply)
  qed
  have c6: "rotate_comparison_snapshots max_history fs (Numbered (nat max_history)) =
           fs (Numbered (nat max_history))"
    if "2 \<le> max_history" "fs (Numbered (nat max_history - 1)) = None"
  proof -
    have "nat max_history \<noteq> 1" "nat max_history \<noteq> 0" using that(1) by linarith+
    then show ?thesis using that by (simp add: rotate_apply)
  qed
  have c7: "rotate_comparison_snapshots max_history fs (Numbered j) = fs (Numbered j)"
    if "2 \<le> j" "max_history < int j"
  proof -
    have "nat max_history < j" using that by linarith
    then show ?thesis using that by (simp add: rotate_apply)
  qed
  show ?thesis using c1 c2 c3 c4 c5 c6 c7 sub crd by blast
qed

theorem rotation_witness:
  "rotate_comparison_snapshots 5 full_history Base = None
   \<and> rotate_comparison_snapshots 5 full_history (Numbered 1) = Some 0
   \<and> rotate_comparison_snapshots 5 full_history (Numbered 2) = Some 1
   \<and> rotate_comparison_snapshots 5 full_history (Numbered 5) = Some 4
   \<and> rotate_comparison_snapshots 5 full_history (Numbered 7) = None
   \<and> card {j. 1 \<le> j \<and> rotate_comparison_snapshots 5 full_history (Numbered j) \<noteq> None} \<le> 5"
proof -
  have h: "\<forall>j. 5 < int j \<longrightarrow> full_history (Numbered j) = None"
    by (simp add: full_history_def)
  show ?thesis
    using h
      rotation_shifts_and_frees_base [where max_history = 5 and fs = full_history and b = 0
        and i = 1 and c = 1 and j = 7]
      rotation_shifts_and_frees_base [where max_history = 5 and fs = full_history and b = 0
        and i = 4 and c = 4 and j = 7]
    by (simp add: full_history_def numeral_2_eq_2)
qed

subsection \<open>Loading the persisted state\<close>

text \<open>
  C8: a missing tweet log or comparison file loads as the empty dictionary or the default
  document, but a file whose contents \<^verbatim>\<open>json.load\<close> rejects makes \<^verbatim>\<open>load_tweeted_alerts\<close>
  and \<^verbatim>\<open>load_json\<close> raise \<^verbatim>\<open>JSONDecodeError\<close>; neither loader nor either main workflow
  catches it, so the run aborts.
\<close>

theorem corrupt_file_aborts_run:
  "load_tweeted_alerts (Some Corrupt) = Inl JSONDecodeError
   \<and> load_json (\<lambda>p. if p = Base then Some Corrupt else None) Base = Inl JSONDecodeError
   \<and> glofas_main clock alerts (no_files\<lparr>tweet_log := Some Corrupt\<rparr>) = Inl JSONDecodeError
   \<and> live_main clock valid alerts' (no_files\<lparr>tweet_log := Some Corrupt\<rparr>) = Inl JSONDecodeError
   \<and> glofas_main clock alerts (no_files\<lparr>comparison_files := (\<lambda>p. if p = Base then Some Corrupt else None)\<rparr>) = Inl JSONDecodeError
   \<and> load_tweeted_alerts None = Inr Map.empty
   \<and> load_json (\<lambda>p. None) Base = Inr \<lparr>meta = None, doc_alerts = []\<rparr>"
  by (simp add: load_tweeted_alerts_def load_json_def glofas_main_def live_main_def no_files_def)

subsection \<open>The differ\<close>

lemma list_index_mem: "x \<in> set xs \<Longrightarrow> \<exists>i. list_index xs x = Inr i"
proof (induction xs)
  case Nil
  then show ?case by simp
next
  case (Cons y ys)
  show ?case
  proof (cases "y = x")
    case True
    then show ?thesis by simp
  next
    case False
    then have "x \<in> set ys" using Cons.prems by simp
    then obtain i where "list_index ys x = Inr i" using Cons.IH by blast
    then show ?thesis using False by simp
  qed
qed

lemma compare_step_ok:
  assumes "dynamic_level c \<in> set LEVELS"
    and "\<And>p. map_of prev k = Some p \<Longrightarrow> dynamic_level p \<in> set LEVELS"
  shows "\<exists>r. compare_step prev k c [] = Inr r"
proof (cases "map_of prev k")
  case None
  then show ?thesis by (simp add: compare_step_def Let_def)
next
  case (Some p)
  obtain j where j: "list_index LEVELS (dynamic_level c) = Inr j"
    using list_index_mem [OF assms(1)] by blast
  obtain i where i: "list_index LEVELS (dynamic_level p) = Inr i"
    using list_index_mem [OF assms(2) [OF Some]] by blast
  show ?thesis using Some i j by (simp add: compare_step_def Let_def)
qed

lemma compare_step_acc:
  "compare_step prev k c acc =
     (case compare_step prev k c [] of Inl e \<Rightarrow> Inl e | Inr r \<Rightarrow> Inr (acc @ r))"
  by (simp add: compare_step_def Let_def split: option.splits sum.splits)

lemma compare_step_snd:
  "compare_step prev k c [] = Inr r \<Longrightarrow> \<forall>x\<in>set r. snd x = c"
  by (auto simp: compare_step_def Let_def split: option.splits sum.splits if_splits)

lemma compare_loop_filter:
  assumes "distinct (map fst items)"
    and "\<forall>(k, c)\<in>set items. alert_key c = k"
    and "\<forall>(k, c)\<in>set items. \<exists>r. compare_step prev k c [] = Inr r"
  shows "\<exists>changes. compare_loop prev items acc = Inr changes \<and>
           (\<forall>k. filter (\<lambda>x. alert_key (snd x) = k) changes =
                filter (\<lambda>x. alert_key (snd x) = k) acc @
                (case map_of items k of
                   None \<Rightarrow> []
                 | Some c \<Rightarrow> (case compare_step prev k c [] of Inl e \<Rightarrow> [] | Inr r \<Rightarrow> r)))"
  using assms
proof (induction items arbitrary: acc)
  case Nil
  then show ?case by simp
next
  case (Cons item rest)
  obtain k0 c0 where item: "item = (k0, c0)" by (cases item)
  from Cons.prems item obtain r0 where r0: "compare_step prev k0 c0 [] = Inr r0" by auto
  have key0: "alert_key c0 = k0" using Cons.prems item by auto
  have snd0: "\<forall>x\<in>set r0. snd x = c0" using compare_step_snd [OF r0] .
  have step: "compare_step prev k0 c0 acc = Inr (acc @ r0)"
    using r0 by (subst compare_step_acc) simp
  have notin: "map_of rest k0 = None"
    using Cons.prems(1) item by (simp add: map_of_eq_None_iff)
  from Cons.IH [of "acc @ r0"] Cons.prems item
  obtain changes where ch: "compare_loop prev rest (acc @ r0) = Inr changes"
    and flt: "\<And>k. filter (\<lambda>x. alert_key (snd x) = k) changes =
                filter (\<lambda>x. alert_key (snd x) = k) (acc @ r0) @
                (case map_of rest k of
                   None \<Rightarrow> []
                 | Some c \<Rightarrow> (case compare_step prev k c [] of Inl e \<Rightarrow> [] | Inr r \<Rightarrow> r))"
    by auto
  have loop: "compare_loop prev (item # rest) acc = Inr changes"
    using item step ch by simp
  have "filter (\<lambda>x. alert_key (snd x) = k) changes =
                filter (\<lambda>x. alert_key (snd x) = k) acc @
                (case map_of (item # rest) k of
                   None \<Rightarrow> []
                 | Some c \<Rightarrow> (case compare_step prev k c [] of Inl e \<Rightarrow> [] | Inr r \<Rightarrow> r))" for k
  proof (cases "k = k0")
    case True
    have "filter (\<lambda>x. alert_key (snd x) = k0) r0 = r0"
      using snd0 key0 by (simp add: filter_id_conv)
    then show ?thesis using True flt [of k0] notin item r0 by simp
  next
    case False
    have "filter (\<lambda>x. alert_key (snd x) = k) r0 = []"
      using snd0 key0 False by (simp add: filter_empty_conv)
    then show ?thesis using False flt [of k] item by simp
  qed
  then show ?case using loop by blast
qed

lemma update_set: "x \<in> set (AList.update k v al) \<Longrightarrow> x = (k, v) \<or> x \<in> set al"
  by (induction al) (auto split: if_splits)

lemma build_alert_dict_fold_wf:
  assumes "distinct (map fst d)" and "\<forall>(k, c)\<in>set d. alert_key c = k \<and> c \<in> S" and "set alerts \<subseteq> S"
  shows "distinct (map fst (fold (\<lambda>a d. AList.update (alert_key a) a d) alerts d))
         \<and> (\<forall>(k, c)\<in>set (fold (\<lambda>a d. AList.update (alert_key a) a d) alerts d). alert_key c = k \<and> c \<in> S)"
  using assms
proof (induction alerts arbitrary: d)
  case Nil
  then show ?case by simp
next
  case (Cons a alerts)
  have 1: "distinct (map fst (AList.update (alert_key a) a d))"
    using Cons.prems(1) by (rule distinct_update)
  have 2: "\<forall>(k, c)\<in>set (AList.update (alert_key a) a d). alert_key c = k \<and> c \<in> S"
    using Cons.prems(2,3) by (auto dest!: update_set)
  show ?case using Cons.IH [OF 1 2] Cons.prems(3) by simp
qed

lemma build_alert_dict_wf:
  "distinct (map fst (build_alert_dict alerts))
   \<and> (\<forall>(k, c)\<in>set (build_alert_dict alerts). alert_key c = k \<and> c \<in> set alerts)"
  unfolding build_alert_dict_def
  by (rule build_alert_dict_fold_wf) auto

lemma build_alert_dict_lookup:
  "map_of (build_alert_dict alerts) k = Some c \<Longrightarrow> alert_key c = k \<and> c \<in> set alerts"
  using build_alert_dict_wf [of alerts] by (auto dest: map_of_SomeD)

lemma compare_alerts_filter:
  assumes "\<forall>a\<in>set ps \<union> set cs. dynamic_level a \<in> set LEVELS"
  shows "\<exists>changes. compare_alerts (build_alert_dict ps) (build_alert_dict cs) = Inr changes \<and>
           (\<forall>k. filter (\<lambda>x. alert_key (snd x) = k) changes =
                (case map_of (build_alert_dict cs) k of
                   None \<Rightarrow> []
                 | Some c \<Rightarrow>
                     (case compare_step (build_alert_dict ps) k c [] of
                        Inl e \<Rightarrow> [] | Inr r \<Rightarrow> r)))"
proof -
  have ok: "\<forall>(k, c)\<in>set (build_alert_dict cs). \<exists>r. compare_step (build_alert_dict ps) k c [] = Inr r"
  proof (clarify)
    fix k c assume "(k, c) \<in> set (build_alert_dict cs)"
    then have "c \<in> set cs" using build_alert_dict_wf [of cs] by auto
    then have 1: "dynamic_level c \<in> set LEVELS" using assms by auto
    have 2: "dynamic_level p \<in> set LEVELS" if "map_of (build_alert_dict ps) k = Some p" for p
      using build_alert_dict_lookup [OF that] assms by auto
    show "\<exists>r. compare_step (build_alert_dict ps) k c [] = Inr r"
      using compare_step_ok [OF 1 2] by blast
  qed
  have wf: "distinct (map fst (build_alert_dict cs))" "\<forall>(k, c)\<in>set (build_alert_dict cs). alert_key c = k"
    using build_alert_dict_wf [of cs] by auto
  show ?thesis
    using compare_loop_filter [OF wf ok, of "[]"] by (simp add: compare_alerts_def)
qed

lemma compare_step_downgrade:
  assumes "map_of prev k = Some p" "dynamic_level p \<in> set TWEET_LEVELS"
    "level_less (dynamic_level c) (dynamic_level p)"
  shows "compare_step prev k c acc = Inr (acc @ [(Downgrade, c)])"
proof -
  from assms(3) obtain i j where ij: "list_index LEVELS (dynamic_level c) = Inr i"
    "list_index LEVELS (dynamic_level p) = Inr j" "i < j"
    by (auto simp: level_less_def split: sum.splits)
  then have "dynamic_level p \<noteq> dynamic_level c" by auto
  then show ?thesis using assms(1,2) ij
    by (simp add: compare_step_def Let_def ALERT_ON_DOWNGRADES_def)
qed

lemma compare_step_new:
  assumes "map_of prev k = None"
  shows "compare_step prev k c acc =
           Inr (if dynamic_level c \<in> set TWEET_LEVELS then acc @ [(New, c)] else acc)"
  using assms by (simp add: compare_step_def Let_def)

text \<open>
  C2: for snapshots whose levels are levels, a site that is in both snapshots, whose
  previous level is notifiable and whose current level is strictly lower (also None or
  Low), gets exactly one transition from \<^verbatim>\<open>compare_alerts\<close>, a Downgrade carrying its
  current record; the comparison does not raise.
\<close>

theorem downgrade_from_notifiable_is_emitted:
  assumes "\<forall>a\<in>set ps \<union> set cs. dynamic_level a \<in> set LEVELS"
    and "map_of (build_alert_dict ps) k = Some p"
    and "map_of (build_alert_dict cs) k = Some c"
    and "dynamic_level p \<in> set TWEET_LEVELS"
    and "level_less (dynamic_level c) (dynamic_level p)"
  shows "\<exists>changes. compare_alerts (build_alert_dict ps) (build_alert_dict cs) = Inr changes
           \<and> filter (\<lambda>x. alert_key (snd x) = k) changes = [(Downgrade, c)]"
proof -
  obtain changes where ch: "compare_alerts (build_alert_dict ps) (build_alert_dict cs) = Inr changes"
    and flt: "\<And>k. filter (\<lambda>x. alert_key (snd x) = k) changes =
                (case map_of (build_alert_dict cs) k of
                   None \<Rightarrow> []
                 | Some c \<Rightarrow>
                     (case compare_step (build_alert_dict ps) k c [] of
                        Inl e \<Rightarrow> [] | Inr r \<Rightarrow> r))"
    using compare_alerts_filter [OF assms(1)] by blast
  have "compare_step (build_alert_dict ps) k c [] = Inr [(Downgrade, c)]"
    using compare_step_downgrade [OF assms(2,4,5), of "[]"] by simp
  then have "filter (\<lambda>x. alert_key (snd x) = k) changes = [(Downgrade, c)]"
    using flt [of k] assms(3) by simp
  then show ?thesis using ch by blast
qed

theorem downgrade_from_notifiable_witness:
  "map_of (build_alert_dict [glofas_site ''Medium'']) (alert_key (glofas_site ''Low''))
     = Some (glofas_site ''Medium'')
   \<and> map_of (build_alert_dict [glofas_site ''Low'']) (alert_key (glofas_site ''Low''))
     = Some (glofas_site ''Low'')
   \<and> dynamic_level (glofas_site ''Medium'') \<in> set TWEET_LEVELS
   \<and> level_less (dynamic_level (glofas_site ''Low'')) (dynamic_level (glofas_site ''Medium''))
   \<and> (\<exists>changes.
         compare_alerts (build_alert_dict [glofas_site ''Medium''])
           (build_alert_dict [glofas_site ''Low'']) = Inr changes
         \<and> filter (\<lambda>x. alert_key (snd x) = alert_key (glofas_site ''Low'')) changes
             = [(Downgrade, glofas_site ''Low'')])"
proof -
  have h1: "\<forall>a\<in>set [glofas_site ''Medium''] \<union> set [glofas_site ''Low''].
              dynamic_level a \<in> set LEVELS"
    by (simp add: glofas_site_def LEVELS_def)
  have h2: "map_of (build_alert_dict [glofas_site ''Medium'']) (alert_key (glofas_site ''Low''))
     = Some (glofas_site ''Medium'')"
    by (simp add: build_alert_dict_def alert_key_def glofas_site_def)
  have h3: "map_of (build_alert_dict [glofas_site ''Low'']) (alert_key (glofas_site ''Low''))
     = Some (glofas_site ''Low'')"
    by (simp add: build_alert_dict_def)
  have h4: "dynamic_level (glofas_site ''Medium'') \<in> set TWEET_LEVELS"
    by (simp add: glofas_site_def TWEET_LEVELS_def)
  have h5: "level_less (dynamic_level (glofas_site ''Low''))
              (dynamic_level (glofas_site ''Medium''))"
    by (simp add: glofas_site_def level_less_def list_index_LEVELS_cases)
  show ?thesis
    using h2 h3 h4 h5 downgrade_from_notifiable_is_emitted [OF h1 h2 h3 h4 h5] by blast
qed

text \<open>
  C3: a site of the current snapshot that the previous snapshot does not have gets one
  New transition when its level is notifiable and none otherwise. The turn of the loop
  for such a site never raises, whatever its level is; and for snapshots whose levels
  are levels the whole comparison does not raise and holds exactly that for the site.
\<close>

theorem new_site_transition:
  "(map_of prev k = None \<longrightarrow>
      compare_step prev k c acc =
        Inr (if dynamic_level c \<in> set TWEET_LEVELS then acc @ [(New, c)] else acc))
   \<and> ((\<forall>a\<in>set ps \<union> set cs. dynamic_level a \<in> set LEVELS)
        \<and> map_of (build_alert_dict ps) k = None
        \<and> map_of (build_alert_dict cs) k = Some c \<longrightarrow>
       (\<exists>changes. compare_alerts (build_alert_dict ps) (build_alert_dict cs) = Inr changes
           \<and> filter (\<lambda>x. alert_key (snd x) = k) changes =
               (if dynamic_level c \<in> set TWEET_LEVELS then [(New, c)] else [])))"
proof -
  have whole: "\<exists>changes. compare_alerts (build_alert_dict ps) (build_alert_dict cs) = Inr changes
           \<and> filter (\<lambda>x. alert_key (snd x) = k) changes =
               (if dynamic_level c \<in> set TWEET_LEVELS then [(New, c)] else [])"
    if a: "\<forall>a\<in>set ps \<union> set cs. dynamic_level a \<in> set LEVELS"
      and b: "map_of (build_alert_dict ps) k = None"
      and c: "map_of (build_alert_dict cs) k = Some c"
  proof -
    obtain changes where ch: "compare_alerts (build_alert_dict ps) (build_alert_dict cs) = Inr changes"
      and flt: "\<And>k. filter (\<lambda>x. alert_key (snd x) = k) changes =
                (case map_of (build_alert_dict cs) k of
                   None \<Rightarrow> []
                 | Some c \<Rightarrow>
                     (case compare_step (build_alert_dict ps) k c [] of
                        Inl e \<Rightarrow> [] | Inr r \<Rightarrow> r))"
      using compare_alerts_filter [OF a] by blast
    have "compare_step (build_alert_dict ps) k c [] =
            Inr (if dynamic_level c \<in> set TWEET_LEVELS then [(New, c)] else [])"
      using compare_step_new [OF b, of c "[]"] by simp
    then have "filter (\<lambda>x. alert_key (snd x) = k) changes =
            (if dynamic_level c \<in> set TWEET_LEVELS then [(New, c)] else [])"
      using flt [of k] c by simp
    then show ?thesis using ch by blast
  qed
  have one: "compare_step prev k c acc =
        Inr (if dynamic_level c \<in> set TWEET_LEVELS then acc @ [(New, c)] else acc)"
    if "map_of prev k = None"
    using compare_step_new [OF that] .
  show ?thesis using whole one by blast
qed

theorem new_site_witness:
  "map_of (build_alert_dict ([] :: glofas_alert list)) (alert_key (glofas_site ''Medium'')) = None
   \<and> compare_step (build_alert_dict []) (alert_key (glofas_site ''Medium''))
         (glofas_site ''Medium'') [] = Inr [(New, glofas_site ''Medium'')]
   \<and> compare_step (build_alert_dict []) (alert_key (glofas_site ''Low''))
         (glofas_site ''Low'') [] = Inr []
   \<and> (\<exists>changes.
         compare_alerts (build_alert_dict []) (build_alert_dict [glofas_site ''Medium''])
           = Inr changes
         \<and> filter (\<lambda>x. alert_key (snd x) = alert_key (glofas_site ''Medium'')) changes
             = [(New, glofas_site ''Medium'')])
   \<and> (\<exists>changes.
         compare_alerts (build_alert_dict []) (build_alert_dict [glofas_site ''Low''])
           = Inr changes
         \<and> filter (\<lambda>x. alert_key (snd x) = alert_key (glofas_site ''Low'')) changes = [])"
proof -
  have n: "map_of (build_alert_dict ([] :: glofas_alert list)) k = None" for k
    by (simp add: build_alert_dict_def)
  have m: "dynamic_level (glofas_site ''Medium'') \<in> set TWEET_LEVELS"
    by (simp add: glofas_site_def TWEET_LEVELS_def)
  have l: "dynamic_level (glofas_site ''Low'') \<notin> set TWEET_LEVELS"
    by (simp add: glofas_site_def TWEET_LEVELS_def)
  have lm: "\<forall>a\<in>set ([] :: glofas_alert list) \<union> set [glofas_site ''Medium''].
              dynamic_level a \<in> set LEVELS"
    by (simp add: glofas_site_def LEVELS_def)
  have ll: "\<forall>a\<in>set ([] :: glofas_alert list) \<union> set [glofas_site ''Low''].
              dynamic_level a \<in> set LEVELS"
    by (simp add: glofas_site_def LEVELS_def)
  have cm: "map_of (build_alert_dict [glofas_site ''Medium'']) (alert_key (glofas_site ''Medium''))
              = Some (glofas_site ''Medium'')"
    by (simp add: build_alert_dict_def)
  have cl: "map_of (build_alert_dict [glofas_site ''Low'']) (alert_key (glofas_site ''Low''))
              = Some (glofas_site ''Low'')"
    by (simp add: build_alert_dict_def)
  note tm = new_site_transition [where prev = "build_alert_dict []"
        and k = "alert_key (glofas_site ''Medium'')" and c = "glofas_site ''Medium''"
        and acc = "[]" and ps = "[]" and cs = "[glofas_site ''Medium'']"]
  note tl = new_site_transition [where prev = "build_alert_dict []"
        and k = "alert_key (glofas_site ''Low'')" and c = "glofas_site ''Low''"
        and acc = "[]" and ps = "[]" and cs = "[glofas_site ''Low'']"]
  have 1: "compare_step (build_alert_dict []) (alert_key (glofas_site ''Medium''))
         (glofas_site ''Medium'') [] = Inr [(New, glofas_site ''Medium'')]"
    using tm n m by simp
  have 2: "compare_step (build_alert_dict []) (alert_key (glofas_site ''Low''))
         (glofas_site ''Low'') [] = Inr []"
    using tl n l by simp
  have 3: "\<exists>changes.
         compare_alerts (build_alert_dict []) (build_alert_dict [glofas_site ''Medium''])
           = Inr changes
         \<and> filter (\<lambda>x. alert_key (snd x) = alert_key (glofas_site ''Medium'')) changes
             = [(New, glofas_site ''Medium'')]"
    using tm lm n cm m by simp
  have 4: "\<exists>changes.
         compare_alerts (build_alert_dict []) (build_alert_dict [glofas_site ''Low''])
           = Inr changes
         \<and> filter (\<lambda>x. alert_key (snd x) = alert_key (glofas_site ''Low'')) changes = []"
    using tl ll n cl l by simp
  show ?thesis using n 1 2 3 4 by blast
qed

subsection \<open>Keys\<close>

lemma round_half_even_nonneg: "0 \<le> y \<Longrightarrow> 0 \<le> round_half_even y"
  by (simp add: round_half_even_def Let_def)

lemma round_half_even_nonpos: "y < 0 \<Longrightarrow> round_half_even y \<le> 0"
proof -
  assume "y < 0"
  then have "\<lfloor>y\<rfloor> < 0" by linarith
  then show ?thesis by (simp add: round_half_even_def Let_def)
qed

lemma number_of_format_4f: "number_of_4f (format_4f x) = py_round x 4"
proof (cases "x < 0")
  case True
  then have "x * 10 ^ 4 < 0" by (simp add: mult_less_0_iff)
  then have "round_half_even (x * 10 ^ 4) \<le> 0" by (rule round_half_even_nonpos)
  then show ?thesis using True
    by (simp add: number_of_4f_def format_4f_def py_round_def)
next
  case False
  then have "0 \<le> x * 10 ^ 4" by simp
  then have "0 \<le> round_half_even (x * 10 ^ 4)" by (rule round_half_even_nonneg)
  then show ?thesis using False
    by (simp add: number_of_4f_def format_4f_def py_round_def)
qed

lemma site_of_tweet_key: "site_of_log_key (tweet_key a) = alert_key a"
  by (simp add: site_of_log_key_def tweet_key_def alert_key_def number_of_format_4f)

lemma tweet_key_eq_alert_key: "tweet_key a = tweet_key b \<Longrightarrow> alert_key a = alert_key b"
  using site_of_tweet_key [of a] site_of_tweet_key [of b] by simp

lemma glofas_step_suppressed:
  "tweeted_alerts st (tweet_key a) = None \<Longrightarrow> glofas_tweet_step clock (Downgrade, a) st = st"
  by (simp add: glofas_tweet_step_def)

lemma glofas_step_tweets:
  "\<not> (t = Downgrade \<and> tweeted_alerts st (tweet_key a) = None) \<Longrightarrow>
     tweets (glofas_tweet_step clock (t, a) st) = tweets st @ [(t, a)]"
  by (auto simp: glofas_tweet_step_def Let_def)

lemma glofas_step_log:
  "\<not> (t = Downgrade \<and> tweeted_alerts st (tweet_key a) = None) \<Longrightarrow>
     tweeted_alerts (glofas_tweet_step clock (t, a) st) =
       (tweeted_alerts st)(tweet_key a \<mapsto> glofas_entry_of a (clock (Suc (length (tweets st)))))"
  by (auto simp: glofas_tweet_step_def Let_def)

lemma live_step_tweets:
  "tweets (live_tweet_step clock (t, a) st) = tweets st @ [(t, a)]"
  by (simp add: live_tweet_step_def Let_def)

lemma live_step_log:
  "tweeted_alerts (live_tweet_step clock (t, a) st) =
     (tweeted_alerts st)(tweet_key a \<mapsto> live_entry_of a (clock (Suc (length (tweets st)))))"
  by (simp add: live_tweet_step_def Let_def)

subsection \<open>The loops that tweet and update the tracker\<close>

lemma glofas_step_other:
  "k \<noteq> tweet_key (snd x) \<Longrightarrow>
     tweeted_alerts (glofas_tweet_step clock x st) k = tweeted_alerts st k"
  by (simp add: glofas_tweet_step_def Let_def)

lemma glofas_loop:
  assumes "distinct (map (\<lambda>x. tweet_key (snd x)) changes)"
  shows "tweets (fold (glofas_tweet_step clock) changes st) =
           tweets st @
           filter (\<lambda>x. \<not> (fst x = Downgrade \<and> tweeted_alerts st (tweet_key (snd x)) = None)) changes
         \<and> (\<forall>k. k \<notin> (\<lambda>x. tweet_key (snd x)) `
                    set (filter (\<lambda>x. \<not> (fst x = Downgrade \<and>
                                  tweeted_alerts st (tweet_key (snd x)) = None)) changes) \<longrightarrow>
               tweeted_alerts (fold (glofas_tweet_step clock) changes st) k = tweeted_alerts st k)
         \<and> (\<forall>x\<in>set (filter (\<lambda>x. \<not> (fst x = Downgrade \<and>
                                  tweeted_alerts st (tweet_key (snd x)) = None)) changes).
               \<exists>now. tweeted_alerts (fold (glofas_tweet_step clock) changes st) (tweet_key (snd x)) =
                 Some (glofas_entry_of (snd x) now))"
  using assms
proof (induction changes arbitrary: st)
  case Nil
  then show ?case by simp
next
  case (Cons x rest)
  let ?keep = "\<lambda>s y. \<not> (fst y = Downgrade \<and> tweeted_alerts s (tweet_key (snd y)) = None)"
  let ?st1 = "glofas_tweet_step clock x st"
  let ?fin = "fold (glofas_tweet_step clock) rest ?st1"
  obtain t a where x: "x = (t, a)" by (cases x)
  have dist: "distinct (map (\<lambda>x. tweet_key (snd x)) rest)"
    and nin: "tweet_key a \<notin> (\<lambda>x. tweet_key (snd x)) ` set rest"
    using Cons.prems x by auto
  have fresh: "tweet_key (snd y) \<noteq> tweet_key a" if "y \<in> set rest" for y
    using nin that by (auto simp: image_iff)
  have same: "?keep ?st1 y = ?keep st y" if "y \<in> set rest" for y
    using glofas_step_other [of "tweet_key (snd y)" x clock st] fresh [OF that] x by simp
  have flt: "filter (?keep ?st1) rest = filter (?keep st) rest"
    using same by (intro filter_cong) auto
  note IH = Cons.IH [OF dist, of ?st1, unfolded flt]
  have tw: "tweets ?fin = tweets ?st1 @ filter (?keep st) rest" using IH by blast
  have un: "\<And>k. k \<notin> (\<lambda>x. tweet_key (snd x)) ` set (filter (?keep st) rest) \<Longrightarrow>
               tweeted_alerts ?fin k = tweeted_alerts ?st1 k" using IH by blast
  have en: "\<And>y. y \<in> set (filter (?keep st) rest) \<Longrightarrow>
               \<exists>now. tweeted_alerts ?fin (tweet_key (snd y)) = Some (glofas_entry_of (snd y) now)"
    using IH by blast
  have afresh: "tweet_key a \<notin> (\<lambda>x. tweet_key (snd x)) ` set (filter (?keep st) rest)"
    using nin by auto
  show ?case
  proof (cases "?keep st x")
    case False
    then have st1: "?st1 = st" using x glofas_step_suppressed by auto
    have f: "filter (?keep st) (x # rest) = filter (?keep st) rest" using False by simp
    show ?thesis unfolding f using tw un en st1 by simp
  next
    case True
    have t1: "tweets ?st1 = tweets st @ [x]"
      using True x glofas_step_tweets [of t st a clock] by simp
    have l1: "tweeted_alerts ?st1 =
        (tweeted_alerts st)(tweet_key a \<mapsto> glofas_entry_of a (clock (Suc (length (tweets st)))))"
      using True x glofas_step_log [of t st a clock] by simp
    have f: "filter (?keep st) (x # rest) = x # filter (?keep st) rest" using True by simp
    have A: "tweets (fold (glofas_tweet_step clock) (x # rest) st) =
               tweets st @ filter (?keep st) (x # rest)"
      unfolding f using tw t1 by simp
    have B: "tweeted_alerts (fold (glofas_tweet_step clock) (x # rest) st) k = tweeted_alerts st k"
      if "k \<notin> (\<lambda>x. tweet_key (snd x)) ` set (filter (?keep st) (x # rest))" for k
    proof -
      from that have k1: "k \<noteq> tweet_key a"
        and k2: "k \<notin> (\<lambda>x. tweet_key (snd x)) ` set (filter (?keep st) rest)"
        unfolding f using x by auto
      show ?thesis using un [OF k2] l1 k1 by simp
    qed
    have C: "\<exists>now. tweeted_alerts (fold (glofas_tweet_step clock) (x # rest) st) (tweet_key (snd y)) =
                 Some (glofas_entry_of (snd y) now)"
      if "y \<in> set (filter (?keep st) (x # rest))" for y
    proof (cases "y = x")
      case True
      then have "tweeted_alerts (fold (glofas_tweet_step clock) (x # rest) st)
                   (tweet_key (snd y)) =
                 Some (glofas_entry_of (snd y) (clock (Suc (length (tweets st)))))"
        using un [OF afresh] l1 x by simp
      then show ?thesis by blast
    next
      case False
      then have "y \<in> set (filter (?keep st) rest)" using that unfolding f by simp
      then show ?thesis using en by simp
    qed
    show ?thesis using A B C by blast
  qed
qed

lemma live_step_other:
  "k \<noteq> tweet_key (snd x) \<Longrightarrow>
     tweeted_alerts (live_tweet_step clock x st) k = tweeted_alerts st k"
  by (simp add: live_tweet_step_def Let_def)

lemma live_loop_tweets:
  "tweets (fold (live_tweet_step clock) changes st) = tweets st @ changes"
proof (induction changes arbitrary: st)
  case Nil
  then show ?case by simp
next
  case (Cons x rest)
  obtain t a where x: "x = (t, a)" by (cases x)
  show ?case using Cons.IH [of "live_tweet_step clock x st"] x live_step_tweets [of clock t a st]
    by simp
qed

lemma live_loop_other:
  "k \<notin> (\<lambda>x. tweet_key (snd x)) ` set changes \<Longrightarrow>
     tweeted_alerts (fold (live_tweet_step clock) changes st) k = tweeted_alerts st k"
proof (induction changes arbitrary: st)
  case Nil
  then show ?case by simp
next
  case (Cons x rest)
  then have "k \<noteq> tweet_key (snd x)" "k \<notin> (\<lambda>x. tweet_key (snd x)) ` set rest" by auto
  then show ?case using Cons.IH [of "live_tweet_step clock x st"] live_step_other by simp
qed

lemma live_loop_entry:
  "x \<in> set changes \<Longrightarrow>
     \<exists>y now. y \<in> set changes \<and> tweet_key (snd y) = tweet_key (snd x) \<and>
       tweeted_alerts (fold (live_tweet_step clock) changes st) (tweet_key (snd x)) =
         Some (live_entry_of (snd y) now)"
proof (induction changes arbitrary: st x)
  case Nil
  then show ?case by simp
next
  case (Cons z rest)
  let ?st1 = "live_tweet_step clock z st"
  show ?case
  proof (cases "tweet_key (snd x) \<in> (\<lambda>x. tweet_key (snd x)) ` set rest")
    case True
    then obtain x' where x': "x' \<in> set rest" "tweet_key (snd x') = tweet_key (snd x)" by auto
    from Cons.IH [OF x'(1), of ?st1] x'(2) show ?thesis by auto
  next
    case False
    then have "x \<notin> set rest" by auto
    then have xz: "x = z" using Cons.prems by simp
    obtain t a where z: "z = (t, a)" by (cases z)
    have "tweeted_alerts (fold (live_tweet_step clock) rest ?st1) (tweet_key (snd x)) =
            tweeted_alerts ?st1 (tweet_key (snd x))"
      using live_loop_other [OF False] .
    then show ?thesis using xz z live_step_log [of clock t a st] by auto
  qed
qed

subsection \<open>What a comparison emits\<close>

lemma compare_loop_Inr_steps:
  "compare_loop prev items acc = Inr changes \<Longrightarrow>
     \<forall>(k, c)\<in>set items. \<exists>r. compare_step prev k c [] = Inr r"
proof (induction items arbitrary: acc)
  case Nil
  then show ?case by simp
next
  case (Cons item rest)
  obtain k0 c0 where item: "item = (k0, c0)" by (cases item)
  show ?case
  proof (cases "compare_step prev k0 c0 []")
    case (Inl e)
    then have "compare_step prev k0 c0 acc = Inl e"
      by (subst compare_step_acc) simp
    then show ?thesis using Cons.prems item by simp
  next
    case (Inr r0)
    then have "compare_step prev k0 c0 acc = Inr (acc @ r0)"
      by (subst compare_step_acc) simp
    then have "compare_loop prev rest (acc @ r0) = Inr changes"
      using Cons.prems item by simp
    from Cons.IH [OF this] Inr item show ?thesis by simp
  qed
qed

lemma compare_alerts_Inr_filter:
  assumes "compare_alerts (build_alert_dict ps) (build_alert_dict cs) = Inr changes"
  shows "filter (\<lambda>x. alert_key (snd x) = k) changes =
           (case map_of (build_alert_dict cs) k of
              None \<Rightarrow> []
            | Some c \<Rightarrow>
                (case compare_step (build_alert_dict ps) k c [] of
                   Inl e \<Rightarrow> [] | Inr r \<Rightarrow> r))"
proof -
  have loop: "compare_loop (build_alert_dict ps) (build_alert_dict cs) [] = Inr changes"
    using assms by (simp add: compare_alerts_def)
  have wf: "distinct (map fst (build_alert_dict cs))"
    "\<forall>(k, c)\<in>set (build_alert_dict cs). alert_key c = k"
    using build_alert_dict_wf [of cs] by auto
  note L = compare_loop_filter [OF wf compare_loop_Inr_steps [OF loop], of "[]",
      unfolded filter.simps append_Nil]
  then obtain ch where 1: "compare_loop (build_alert_dict ps) (build_alert_dict cs) [] = Inr ch"
    and 2: "\<forall>k. filter (\<lambda>x. alert_key (snd x) = k) ch =
           (case map_of (build_alert_dict cs) k of
              None \<Rightarrow> []
            | Some c \<Rightarrow>
                (case compare_step (build_alert_dict ps) k c [] of
                   Inl e \<Rightarrow> [] | Inr r \<Rightarrow> r))"
    by blast
  from 1 loop have "ch = changes" by simp
  then show ?thesis using 2 by blast
qed

lemma compare_step_result:
  assumes "compare_step prev k c [] = Inr r" and "(t, a) \<in> set r"
  shows "a = c \<and> r = [(t, c)]
         \<and> (t \<noteq> Downgrade \<longrightarrow> dynamic_level c \<in> set TWEET_LEVELS)
         \<and> (t = Downgrade \<longrightarrow>
              (\<exists>p. map_of prev k = Some p \<and> dynamic_level p \<in> set TWEET_LEVELS))"
proof (cases "map_of prev k")
  case None
  then show ?thesis using assms
    by (auto simp: compare_step_def Let_def split: if_splits)
next
  case (Some p)
  show ?thesis
  proof (cases "dynamic_level p = dynamic_level c")
    case True
    then show ?thesis using assms Some by (simp add: compare_step_def Let_def)
  next
    case False
    from assms(1) Some False obtain i j where
      ij: "list_index LEVELS (dynamic_level p) = Inr i" "list_index LEVELS (dynamic_level c) = Inr j"
      by (simp add: compare_step_def Let_def split: sum.splits)
    show ?thesis using assms Some False ij
      by (auto simp: compare_step_def Let_def split: if_splits)
  qed
qed

lemma filter_le_one_distinct:
  "(\<And>k. length (filter (\<lambda>x. f x = k) xs) \<le> 1) \<Longrightarrow> distinct (map f xs)"
proof (induction xs)
  case Nil
  then show ?case by simp
next
  case (Cons x xs)
  have len: "length (filter (\<lambda>y. f y = k) xs) \<le> 1" for k
    using Cons.prems [of k] by (simp split: if_splits)
  have "filter (\<lambda>y. f y = f x) xs = []"
    using Cons.prems [of "f x"] by simp
  then have "f x \<notin> f ` set xs"
    by (auto simp: filter_empty_conv)
  then show ?case using Cons.IH [OF len] by simp
qed

lemma compare_alerts_distinct:
  assumes "compare_alerts (build_alert_dict ps) (build_alert_dict cs) = Inr changes"
  shows "distinct (map (\<lambda>x. alert_key (snd x)) changes)"
proof (rule filter_le_one_distinct)
  fix k
  show "length (filter (\<lambda>x. alert_key (snd x) = k) changes) \<le> 1"
  proof (cases "map_of (build_alert_dict cs) k")
    case None
    then show ?thesis using compare_alerts_Inr_filter [OF assms, of k] by simp
  next
    case (Some c)
    show ?thesis
    proof (cases "compare_step (build_alert_dict ps) k c []")
      case (Inl e)
      then show ?thesis using compare_alerts_Inr_filter [OF assms, of k] Some by simp
    next
      case (Inr r)
      have "length r \<le> 1"
      proof (cases r)
        case Nil
        then show ?thesis by simp
      next
        case (Cons x xs)
        obtain t a where "x = (t, a)" by (cases x)
        then have "(t, a) \<in> set r" using Cons by simp
        from compare_step_result [OF Inr this] show ?thesis by simp
      qed
      then show ?thesis using compare_alerts_Inr_filter [OF assms, of k] Some Inr by simp
    qed
  qed
qed

lemma distinct_map_finer:
  assumes "distinct (map f xs)" and "\<And>x y. g x = g y \<Longrightarrow> f x = f y"
  shows "distinct (map g xs)"
proof -
  from assms(1) have d: "distinct xs" and i: "inj_on f (set xs)"
    by (simp_all add: distinct_map)
  have "inj_on g (set xs)"
  proof (rule inj_onI)
    fix x y assume "x \<in> set xs" "y \<in> set xs" "g x = g y"
    then show "x = y" using i assms(2) by (auto dest: inj_onD)
  qed
  then show ?thesis using d by (simp add: distinct_map)
qed

lemma compare_alerts_distinct_tweet_keys:
  assumes "compare_alerts (build_alert_dict ps) (build_alert_dict cs) = Inr changes"
  shows "distinct (map (\<lambda>x. tweet_key (snd x)) changes)"
  using compare_alerts_distinct [OF assms]
  by (rule distinct_map_finer) (rule tweet_key_eq_alert_key)

lemma compare_alerts_member:
  assumes "compare_alerts (build_alert_dict ps) (build_alert_dict cs) = Inr changes"
    and "(t, a) \<in> set changes"
  shows "map_of (build_alert_dict cs) (alert_key a) = Some a
         \<and> (t \<noteq> Downgrade \<longrightarrow> dynamic_level a \<in> set TWEET_LEVELS)
         \<and> (t = Downgrade \<longrightarrow>
              (\<exists>p. map_of (build_alert_dict ps) (alert_key a) = Some p
                   \<and> dynamic_level p \<in> set TWEET_LEVELS))"
proof -
  have mem: "(t, a) \<in> set (filter (\<lambda>x. alert_key (snd x) = alert_key a) changes)"
    using assms(2) by simp
  note F = compare_alerts_Inr_filter [OF assms(1), of "alert_key a"]
  from mem F obtain c where c: "map_of (build_alert_dict cs) (alert_key a) = Some c"
    by (cases "map_of (build_alert_dict cs) (alert_key a)") auto
  from mem F c obtain r where r: "compare_step (build_alert_dict ps) (alert_key a) c [] = Inr r"
    by (cases "compare_step (build_alert_dict ps) (alert_key a) c []") auto
  from mem F c r have "(t, a) \<in> set r" by simp
  from compare_step_result [OF r this] c show ?thesis by auto
qed

subsection \<open>A whole run\<close>

lemma distinct_map_eq:
  "distinct (map g xs) \<Longrightarrow> x \<in> set xs \<Longrightarrow> y \<in> set xs \<Longrightarrow> g x = g y \<Longrightarrow> x = y"
  by (auto simp: distinct_map dest: inj_onD)

lemma glofas_main_Inr:
  assumes "load_json (comparison_files fs) Base = Inr previous"
    and "load_tweeted_alerts (tweet_log fs) = Inr led"
    and "compare_alerts (build_alert_dict (doc_alerts previous)) (build_alert_dict alerts)
           = Inr changes"
  shows "glofas_main clock alerts fs =
     Inr (fs\<lparr>tweet_log := Some (Doc (tweeted_alerts
                 (glofas_tweet_loop clock changes \<lparr>tweets = [], tweeted_alerts = led\<rparr>))),
             comparison_files :=
               (rotate_comparison_snapshots COMPARISON_HISTORY (comparison_files fs))
                 (Base \<mapsto> Doc \<lparr>meta = Some \<lparr>timestamp = clock 0, source = ''GloFAS'',
                                             features_evaluated = length alerts\<rparr>,
                               doc_alerts = alerts\<rparr>)\<rparr>,
          tweets (glofas_tweet_loop clock changes \<lparr>tweets = [], tweeted_alerts = led\<rparr>))"
  using assms by (simp add: glofas_main_def Let_def)

lemma live_main_Inr:
  assumes "load_json (comparison_files fs) Base = Inr previous"
    and "load_tweeted_alerts (tweet_log fs) = Inr led"
    and "compare_alerts (build_alert_dict (doc_alerts previous)) (build_alert_dict alerts)
           = Inr changes"
  shows "live_main clock valid_coords alerts fs =
     Inr (fs\<lparr>tweet_log := Some (Doc (tweeted_alerts
                 (live_tweet_loop clock changes
                    \<lparr>tweets = [], tweeted_alerts = cleanup_tweeted_alerts led valid_coords\<rparr>))),
             comparison_files :=
               (comparison_files fs)
                 (Base \<mapsto> Doc \<lparr>meta = Some \<lparr>timestamp = clock 0, source = ''Open-Meteo'',
                                             features_evaluated = length alerts\<rparr>,
                               doc_alerts = alerts\<rparr>)\<rparr>,
          tweets (live_tweet_loop clock changes
                    \<lparr>tweets = [], tweeted_alerts = cleanup_tweeted_alerts led valid_coords\<rparr>))"
  using assms by (simp add: live_main_def Let_def)

lemma glofas_run_gate:
  assumes "load_json (comparison_files fs) Base = Inr previous"
    and "load_tweeted_alerts (tweet_log fs) = Inr led"
    and "compare_alerts (build_alert_dict (doc_alerts previous)) (build_alert_dict alerts)
           = Inr changes"
  shows "\<exists>fs' tw led'. glofas_main clock alerts fs = Inr (fs', tw)
          \<and> tweet_log fs' = Some (Doc led')
          \<and> tw = filter (\<lambda>x. \<not> (fst x = Downgrade \<and> led (tweet_key (snd x)) = None)) changes
          \<and> (\<forall>x\<in>set changes. fst x = Downgrade \<and> led (tweet_key (snd x)) = None \<longrightarrow>
                led' (tweet_key (snd x)) = None
                \<and> (\<forall>y\<in>set tw. tweet_key (snd y) \<noteq> tweet_key (snd x)))
          \<and> (\<forall>x\<in>set changes. fst x \<noteq> Downgrade \<longrightarrow>
                x \<in> set tw \<and> (\<exists>e. led' (tweet_key (snd x)) = Some e))"
proof -
  let ?keep = "\<lambda>x. \<not> (fst x = Downgrade \<and> led (tweet_key (snd x)) = None)"
  let ?s0 = "\<lparr>tweets = [], tweeted_alerts = led\<rparr> :: (glofas_alert, glofas_entry) tracker"
  let ?fin = "glofas_tweet_loop clock changes ?s0"
  have dist: "distinct (map (\<lambda>x. tweet_key (snd x)) changes)"
    using compare_alerts_distinct_tweet_keys [OF assms(3)] .
  note G = glofas_loop [OF dist, where clock = clock and st = ?s0,
      folded glofas_tweet_loop_def, unfolded tracker.select_convs append_Nil]
  have tw: "tweets ?fin = filter ?keep changes" using G by blast
  have un: "tweeted_alerts ?fin k = led k"
    if "k \<notin> (\<lambda>x. tweet_key (snd x)) ` set (filter ?keep changes)" for k
    using G that by blast
  have en: "\<exists>e. tweeted_alerts ?fin (tweet_key (snd x)) = Some e"
    if "x \<in> set (filter ?keep changes)" for x
    using G that by blast
  have sup: "tweeted_alerts ?fin (tweet_key (snd x)) = None
             \<and> (\<forall>y\<in>set (filter ?keep changes). tweet_key (snd y) \<noteq> tweet_key (snd x))"
    if x: "x \<in> set changes" "fst x = Downgrade \<and> led (tweet_key (snd x)) = None" for x
  proof -
    have no: "tweet_key (snd y) \<noteq> tweet_key (snd x)" if y: "y \<in> set (filter ?keep changes)" for y
    proof
      assume "tweet_key (snd y) = tweet_key (snd x)"
      then have "y = x" using distinct_map_eq [OF dist _ x(1)] y by simp
      then show False using y x(2) by simp
    qed
    have "tweet_key (snd x) \<notin> (\<lambda>x. tweet_key (snd x)) ` set (filter ?keep changes)"
    proof
      assume "tweet_key (snd x) \<in> (\<lambda>x. tweet_key (snd x)) ` set (filter ?keep changes)"
      then obtain y where "y \<in> set (filter ?keep changes)"
        "tweet_key (snd x) = tweet_key (snd y)"
        by (rule imageE)
      then show False using no [of y] by simp
    qed
    then have "tweeted_alerts ?fin (tweet_key (snd x)) = None" using un x(2) by simp
    then show ?thesis using no by blast
  qed
  have kept: "x \<in> set (filter ?keep changes) \<and> (\<exists>e. tweeted_alerts ?fin (tweet_key (snd x)) = Some e)"
    if "x \<in> set changes" "fst x \<noteq> Downgrade" for x
    using that en [of x] by simp
  show ?thesis
    unfolding glofas_main_Inr [OF assms] using tw sup kept by simp
qed

lemma live_run_no_gate:
  assumes "load_json (comparison_files fs) Base = Inr previous"
    and "load_tweeted_alerts (tweet_log fs) = Inr led"
    and "compare_alerts (build_alert_dict (doc_alerts previous)) (build_alert_dict alerts)
           = Inr changes"
  shows "\<exists>fs' led'. live_main clock valid_coords alerts fs = Inr (fs', changes)
          \<and> tweet_log fs' = Some (Doc led')
          \<and> (\<forall>x\<in>set changes. \<exists>e. led' (tweet_key (snd x)) = Some e)"
proof -
  let ?s0 = "\<lparr>tweets = [], tweeted_alerts = cleanup_tweeted_alerts led valid_coords\<rparr>
                :: (live_alert, live_entry) tracker"
  let ?fin = "live_tweet_loop clock changes ?s0"
  have tw: "tweets ?fin = changes"
    using live_loop_tweets [of clock changes ?s0] by (simp add: live_tweet_loop_def)
  have en: "\<exists>e. tweeted_alerts ?fin (tweet_key (snd x)) = Some e" if "x \<in> set changes" for x
    using live_loop_entry [OF that, of clock ?s0] by (auto simp: live_tweet_loop_def)
  show ?thesis
    unfolding live_main_Inr [OF assms] using tw en by simp
qed

lemma compare_single_downgrade:
  assumes "alert_key p = alert_key c" "dynamic_level p \<in> set TWEET_LEVELS"
    "level_less (dynamic_level c) (dynamic_level p)"
  shows "compare_alerts (build_alert_dict [p]) (build_alert_dict [c]) = Inr [(Downgrade, c)]"
proof -
  have "map_of (build_alert_dict [p]) (alert_key c) = Some p"
    using assms(1) by (simp add: build_alert_dict_def)
  from compare_step_downgrade [OF this assms(2,3), of "[]"]
  show ?thesis by (simp add: compare_alerts_def build_alert_dict_def)
qed

lemma glofas_example_compare:
  "compare_alerts (build_alert_dict [glofas_site ''Medium'']) (build_alert_dict [glofas_site ''Low''])
     = Inr [(Downgrade, glofas_site ''Low'')]"
  by (rule compare_single_downgrade)
    (simp_all add: glofas_site_def alert_key_def TWEET_LEVELS_def level_less_def
      list_index_LEVELS_cases)

lemma live_example_compare:
  "compare_alerts (build_alert_dict [live_site ''Medium'']) (build_alert_dict [live_site ''Low''])
     = Inr [(Downgrade, live_site ''Low'')]"
  by (rule compare_single_downgrade)
    (simp_all add: live_site_def alert_key_def TWEET_LEVELS_def level_less_def
      list_index_LEVELS_cases)

lemma glofas_example_loads:
  "load_json (comparison_files glofas_files_medium) Base
     = Inr \<lparr>meta = None, doc_alerts = [glofas_site ''Medium'']\<rparr>"
  "load_tweeted_alerts (tweet_log glofas_files_medium) = Inr Map.empty"
  by (simp_all add: load_json_def load_tweeted_alerts_def glofas_files_medium_def)

lemma live_example_loads:
  "load_json (comparison_files live_files_medium) Base
     = Inr \<lparr>meta = None, doc_alerts = [live_site ''Medium'']\<rparr>"
  "load_tweeted_alerts (tweet_log live_files_medium) = Inr Map.empty"
  by (simp_all add: load_json_def load_tweeted_alerts_def live_files_medium_def)

text \<open>
  C1, as the claim states it, fails for the live evaluator: its loop has no test on the
  tweet log. With the site at Medium in the previous snapshot, at Low now and no tweet
  log, the run calls \<^verbatim>\<open>tweet_alert\<close> for the Downgrade and writes an entry for the
  site.
\<close>

theorem live_run_tweets_unrecorded_downgrade:
  "\<exists>fs' led'.
      load_tweeted_alerts (tweet_log live_files_medium) = Inr Map.empty
      \<and> compare_alerts (build_alert_dict [live_site ''Medium''])
            (build_alert_dict [live_site ''Low'']) = Inr [(Downgrade, live_site ''Low'')]
      \<and> live_main stamps UNIV [live_site ''Low''] live_files_medium
            = Inr (fs', [(Downgrade, live_site ''Low'')])
      \<and> tweet_log fs' = Some (Doc led')
      \<and> led' (tweet_key (live_site ''Low'')) \<noteq> None"
proof -
  have c: "compare_alerts
             (build_alert_dict (doc_alerts \<lparr>meta = None, doc_alerts = [live_site ''Medium'']\<rparr>))
             (build_alert_dict [live_site ''Low'']) = Inr [(Downgrade, live_site ''Low'')]"
    using live_example_compare by simp
  from live_run_no_gate [OF live_example_loads c, of stamps UNIV]
  show ?thesis using live_example_loads(2) live_example_compare by auto
qed

text \<open>
  C1 (amended): in the GloFAS evaluator a Downgrade whose key has no entry in the tweet
  log is skipped: the turn of the loop changes nothing, and over a whole run the calls of
  \<^verbatim>\<open>tweet_alert\<close> are exactly the transitions of the differ that are not such
  Downgrades, in order; for a skipped one no call is made for its key and its key still
  has no entry in the log that the run saves, and the run does not raise once the
  files are loaded and the differ has returned. New and Upgrade transitions are never
  skipped: each is tweeted and gets an entry. The live evaluator has no such test:
  every transition of its differ, a Downgrade too, is tweeted and gets an entry.
\<close>

theorem ledger_gate_on_downgrades:
  "(tweeted_alerts st (tweet_key a) = None \<longrightarrow> glofas_tweet_step clock (Downgrade, a) st = st)
   \<and> (t \<noteq> Downgrade \<longrightarrow>
        tweets (glofas_tweet_step clock (t, a) st) = tweets st @ [(t, a)]
        \<and> (\<exists>e. tweeted_alerts (glofas_tweet_step clock (t, a) st) (tweet_key a) = Some e))
   \<and> (load_json (comparison_files fs) Base = Inr previous
        \<and> load_tweeted_alerts (tweet_log fs) = Inr led
        \<and> compare_alerts (build_alert_dict (doc_alerts previous)) (build_alert_dict alerts)
             = Inr changes \<longrightarrow>
       (\<exists>fs' tw led'. glofas_main clock alerts fs = Inr (fs', tw)
          \<and> tweet_log fs' = Some (Doc led')
          \<and> tw = filter (\<lambda>x. \<not> (fst x = Downgrade \<and> led (tweet_key (snd x)) = None)) changes
          \<and> (\<forall>x\<in>set changes. fst x = Downgrade \<and> led (tweet_key (snd x)) = None \<longrightarrow>
                led' (tweet_key (snd x)) = None
                \<and> (\<forall>y\<in>set tw. tweet_key (snd y) \<noteq> tweet_key (snd x)))
          \<and> (\<forall>x\<in>set changes. fst x \<noteq> Downgrade \<longrightarrow>
                x \<in> set tw \<and> (\<exists>e. led' (tweet_key (snd x)) = Some e))))
   \<and> tweets (live_tweet_step lclock (lt, la) lst) = tweets lst @ [(lt, la)]
   \<and> (\<exists>e. tweeted_alerts (live_tweet_step lclock (lt, la) lst) (tweet_key la) = Some e)
   \<and> (load_json (comparison_files lfs) Base = Inr lprevious
        \<and> load_tweeted_alerts (tweet_log lfs) = Inr lled
        \<and> compare_alerts (build_alert_dict (doc_alerts lprevious)) (build_alert_dict lalerts)
             = Inr lchanges \<longrightarrow>
       (\<exists>fs' led'. live_main lclock valid_coords lalerts lfs = Inr (fs', lchanges)
          \<and> tweet_log fs' = Some (Doc led')
          \<and> (\<forall>x\<in>set lchanges. \<exists>e. led' (tweet_key (snd x)) = Some e)))"
proof -
  have g1: "tweeted_alerts st (tweet_key a) = None \<longrightarrow> glofas_tweet_step clock (Downgrade, a) st = st"
    using glofas_step_suppressed by blast
  have g2: "t \<noteq> Downgrade \<longrightarrow>
        tweets (glofas_tweet_step clock (t, a) st) = tweets st @ [(t, a)]
        \<and> (\<exists>e. tweeted_alerts (glofas_tweet_step clock (t, a) st) (tweet_key a) = Some e)"
    using glofas_step_tweets [of t st a clock] glofas_step_log [of t st a clock] by simp
  have l1: "tweets (live_tweet_step lclock (lt, la) lst) = tweets lst @ [(lt, la)]"
    by (rule live_step_tweets)
  have l2: "\<exists>e. tweeted_alerts (live_tweet_step lclock (lt, la) lst) (tweet_key la) = Some e"
    by (simp add: live_step_log)
  show ?thesis
    using g1 g2 l1 l2 glofas_run_gate [of fs previous led alerts changes clock]
      live_run_no_gate [of lfs lprevious lled lalerts lchanges lclock valid_coords]
    by blast
qed

theorem ledger_gate_witness:
  "load_tweeted_alerts (tweet_log glofas_files_medium) = Inr Map.empty
   \<and> compare_alerts (build_alert_dict [glofas_site ''Medium''])
        (build_alert_dict [glofas_site ''Low'']) = Inr [(Downgrade, glofas_site ''Low'')]
   \<and> (\<exists>fs' led'. glofas_main stamps [glofas_site ''Low''] glofas_files_medium = Inr (fs', [])
          \<and> tweet_log fs' = Some (Doc led')
          \<and> led' (tweet_key (glofas_site ''Low'')) = None)
   \<and> tweets (glofas_tweet_step stamps (New, glofas_site ''Medium'')
               \<lparr>tweets = [], tweeted_alerts = Map.empty\<rparr>) = [(New, glofas_site ''Medium'')]
   \<and> (\<exists>fs' led'. live_main stamps UNIV [live_site ''Low''] live_files_medium
            = Inr (fs', [(Downgrade, live_site ''Low'')])
          \<and> tweet_log fs' = Some (Doc led')
          \<and> led' (tweet_key (live_site ''Low'')) \<noteq> None)"
proof -
  have gc: "compare_alerts
             (build_alert_dict (doc_alerts \<lparr>meta = None, doc_alerts = [glofas_site ''Medium'']\<rparr>))
             (build_alert_dict [glofas_site ''Low'']) = Inr [(Downgrade, glofas_site ''Low'')]"
    using glofas_example_compare by simp
  have lc: "compare_alerts
             (build_alert_dict (doc_alerts \<lparr>meta = None, doc_alerts = [live_site ''Medium'']\<rparr>))
             (build_alert_dict [live_site ''Low'']) = Inr [(Downgrade, live_site ''Low'')]"
    using live_example_compare by simp
  note T = ledger_gate_on_downgrades
      [where fs = glofas_files_medium and alerts = "[glofas_site ''Low'']"
        and previous = "\<lparr>meta = None, doc_alerts = [glofas_site ''Medium'']\<rparr>"
        and led = Map.empty and changes = "[(Downgrade, glofas_site ''Low'')]"
        and clock = stamps and t = New and a = "glofas_site ''Medium''"
        and st = "\<lparr>tweets = [], tweeted_alerts = Map.empty\<rparr>"
        and lfs = live_files_medium and lalerts = "[live_site ''Low'']"
        and lprevious = "\<lparr>meta = None, doc_alerts = [live_site ''Medium'']\<rparr>"
        and lled = Map.empty and lchanges = "[(Downgrade, live_site ''Low'')]"
        and lclock = stamps and valid_coords = UNIV
        and lt = Downgrade and la = "live_site ''Low''"
        and lst = "\<lparr>tweets = [], tweeted_alerts = Map.empty\<rparr>"]
  note G = T [THEN conjunct2, THEN conjunct2, THEN conjunct1, THEN mp,
      OF conjI [OF glofas_example_loads(1) conjI [OF glofas_example_loads(2) gc]]]
  note L = T [THEN conjunct2, THEN conjunct2, THEN conjunct2, THEN conjunct2, THEN conjunct2,
      THEN mp, OF conjI [OF live_example_loads(1) conjI [OF live_example_loads(2) lc]]]
  have 1: "\<exists>fs' led'. glofas_main stamps [glofas_site ''Low''] glofas_files_medium = Inr (fs', [])
          \<and> tweet_log fs' = Some (Doc led')
          \<and> led' (tweet_key (glofas_site ''Low'')) = None"
    using G by auto
  have 2: "tweets (glofas_tweet_step stamps (New, glofas_site ''Medium'')
               \<lparr>tweets = [], tweeted_alerts = Map.empty\<rparr>) = [(New, glofas_site ''Medium'')]"
    using T [THEN conjunct2, THEN conjunct1] by simp
  have 3: "\<exists>fs' led'. live_main stamps UNIV [live_site ''Low''] live_files_medium
            = Inr (fs', [(Downgrade, live_site ''Low'')])
          \<and> tweet_log fs' = Some (Doc led')
          \<and> led' (tweet_key (live_site ''Low'')) \<noteq> None"
    using L by auto
  show ?thesis using 1 2 3 glofas_example_loads(2) glofas_example_compare by blast
qed

subsection \<open>The entry that is recorded\<close>

lemma glofas_entry_fields:
  "e_name (glofas_entry_of a now) = headline_city a
   \<and> e_risk_level (glofas_entry_of a now) = dynamic_level a
   \<and> e_latitude (glofas_entry_of a now) = latitude a
   \<and> e_longitude (glofas_entry_of a now) = longitude a
   \<and> e_raw_dynamic_score (glofas_entry_of a now) = raw_dynamic_score a
   \<and> e_last_updated (glofas_entry_of a now) = now
   \<and> e_country (glofas_entry_of a now) = country a
   \<and> e_river_name (glofas_entry_of a now) = river_name a
   \<and> e_return_period (glofas_entry_of a now) = return_period a
   \<and> e_lead_time_days (glofas_entry_of a now) = lead_time_days a
   \<and> e_resolved (glofas_entry_of a now) = (dynamic_level a \<notin> set TWEET_LEVELS)"
  by (simp add: glofas_entry_of_def Let_def)

lemma live_entry_fields:
  "e_name (live_entry_of a now) = name a
   \<and> e_risk_level (live_entry_of a now) = dynamic_level a
   \<and> e_latitude (live_entry_of a now) = latitude a
   \<and> e_longitude (live_entry_of a now) = longitude a
   \<and> e_raw_dynamic_score (live_entry_of a now) = raw_dynamic_score a
   \<and> e_last_updated (live_entry_of a now) = now
   \<and> e_rain_mm (live_entry_of a now) = rain_h_mm a
   \<and> e_humidity (live_entry_of a now) = humidity_avg a
   \<and> e_soil_moisture (live_entry_of a now) = soil_moisture_avg a
   \<and> e_resolved (live_entry_of a now) = False"
  by (simp add: live_entry_of_def)

lemma glofas_step_dom:
  "dom (tweeted_alerts st) \<subseteq> dom (tweeted_alerts (glofas_tweet_step clock x st))"
  by (auto simp: glofas_tweet_step_def Let_def)

lemma live_step_dom:
  "dom (tweeted_alerts st) \<subseteq> dom (tweeted_alerts (live_tweet_step clock x st))"
  by (auto simp: live_tweet_step_def Let_def)

text \<open>
  C6, as the claim states it, fails for the live evaluator: the entry it writes never
  has the key \<^verbatim>\<open>resolved\<close>, also when the recorded level is Low.
\<close>

theorem live_entry_has_no_resolved_marker:
  "\<exists>e. tweeted_alerts
          (live_tweet_step stamps (Downgrade, live_site ''Low'')
             \<lparr>tweets = [], tweeted_alerts = Map.empty\<rparr>)
          (tweet_key (live_site ''Low'')) = Some e
      \<and> e_risk_level e = ''Low''
      \<and> e_risk_level e \<notin> set TWEET_LEVELS
      \<and> \<not> e_resolved e"
  by (simp add: live_step_log live_entry_of_def live_site_def TWEET_LEVELS_def)

text \<open>
  C6 (amended): a transition that is recorded overwrites the entry of its key with the
  current level, the descriptive fields of the current record and the time of the
  write, and no turn of either loop removes an entry. In the GloFAS evaluator the entry
  carries the marker \<^verbatim>\<open>resolved\<close> exactly when the recorded level is outside the
  notifiable levels; in the live evaluator the entry never carries it.
\<close>

theorem recorded_entry_upserted:
  "(\<not> (t = Downgrade \<and> tweeted_alerts st (tweet_key a) = None) \<longrightarrow>
      tweeted_alerts (glofas_tweet_step clock (t, a) st) (tweet_key a)
        = Some (glofas_entry_of a (clock (Suc (length (tweets st))))))
   \<and> dom (tweeted_alerts st) \<subseteq> dom (tweeted_alerts (glofas_tweet_step clock (t, a) st))
   \<and> e_name (glofas_entry_of a now) = headline_city a
   \<and> e_risk_level (glofas_entry_of a now) = dynamic_level a
   \<and> e_latitude (glofas_entry_of a now) = latitude a
   \<and> e_longitude (glofas_entry_of a now) = longitude a
   \<and> e_raw_dynamic_score (glofas_entry_of a now) = raw_dynamic_score a
   \<and> e_last_updated (glofas_entry_of a now) = now
   \<and> e_country (glofas_entry_of a now) = country a
   \<and> e_river_name (glofas_entry_of a now) = river_name a
   \<and> e_return_period (glofas_entry_of a now) = return_period a
   \<and> e_lead_time_days (glofas_entry_of a now) = lead_time_days a
   \<and> e_resolved (glofas_entry_of a now) = (dynamic_level a \<notin> set TWEET_LEVELS)
   \<and> tweeted_alerts (live_tweet_step lclock (lt, la) lst) (tweet_key la)
        = Some (live_entry_of la (lclock (Suc (length (tweets lst)))))
   \<and> dom (tweeted_alerts lst) \<subseteq> dom (tweeted_alerts (live_tweet_step lclock (lt, la) lst))
   \<and> e_name (live_entry_of la now) = name la
   \<and> e_risk_level (live_entry_of la now) = dynamic_level la
   \<and> e_latitude (live_entry_of la now) = latitude la
   \<and> e_longitude (live_entry_of la now) = longitude la
   \<and> e_raw_dynamic_score (live_entry_of la now) = raw_dynamic_score la
   \<and> e_last_updated (live_entry_of la now) = now
   \<and> e_rain_mm (live_entry_of la now) = rain_h_mm la
   \<and> e_humidity (live_entry_of la now) = humidity_avg la
   \<and> e_soil_moisture (live_entry_of la now) = soil_moisture_avg la
   \<and> e_resolved (live_entry_of la now) = False"
proof -
  have g: "\<not> (t = Downgrade \<and> tweeted_alerts st (tweet_key a) = None) \<longrightarrow>
      tweeted_alerts (glofas_tweet_step clock (t, a) st) (tweet_key a)
        = Some (glofas_entry_of a (clock (Suc (length (tweets st)))))"
    using glofas_step_log [of t st a clock] by simp
  have l: "tweeted_alerts (live_tweet_step lclock (lt, la) lst) (tweet_key la)
        = Some (live_entry_of la (lclock (Suc (length (tweets lst)))))"
    by (simp add: live_step_log)
  show ?thesis
    using g l glofas_step_dom [of st clock "(t, a)"] live_step_dom [of lst lclock "(lt, la)"]
      glofas_entry_fields [of a now] live_entry_fields [of la now]
    by blast
qed

theorem recorded_entry_witness:
  "(\<exists>e. tweeted_alerts
          (glofas_tweet_step stamps (Downgrade, glofas_site ''Low'')
             \<lparr>tweets = [],
              tweeted_alerts = [tweet_key (glofas_site ''Low'')
                                  \<mapsto> glofas_entry_of (glofas_site ''Medium'') (stamps 0)]\<rparr>)
          (tweet_key (glofas_site ''Low'')) = Some e
      \<and> e_risk_level e = ''Low'' \<and> e_resolved e
      \<and> e_last_updated e = ''2025-01-01T00:00:30Z'')
   \<and> (\<exists>e. tweeted_alerts
          (glofas_tweet_step stamps (New, glofas_site ''Medium'')
             \<lparr>tweets = [], tweeted_alerts = Map.empty\<rparr>)
          (tweet_key (glofas_site ''Medium'')) = Some e
      \<and> e_risk_level e = ''Medium'' \<and> \<not> e_resolved e)"
proof -
  note A = recorded_entry_upserted
      [where t = Downgrade and a = "glofas_site ''Low''" and clock = stamps
        and st = "\<lparr>tweets = [],
              tweeted_alerts = [tweet_key (glofas_site ''Low'')
                                  \<mapsto> glofas_entry_of (glofas_site ''Medium'') (stamps 0)]\<rparr>"
        and now = "stamps 1"]
  note B = recorded_entry_upserted
      [where t = New and a = "glofas_site ''Medium''" and clock = stamps
        and st = "\<lparr>tweets = [], tweeted_alerts = Map.empty\<rparr>" and now = "stamps 1"]
  have 1: "\<exists>e. tweeted_alerts
          (glofas_tweet_step stamps (Downgrade, glofas_site ''Low'')
             \<lparr>tweets = [],
              tweeted_alerts = [tweet_key (glofas_site ''Low'')
                                  \<mapsto> glofas_entry_of (glofas_site ''Medium'') (stamps 0)]\<rparr>)
          (tweet_key (glofas_site ''Low'')) = Some e
      \<and> e_risk_level e = ''Low'' \<and> e_resolved e
      \<and> e_last_updated e = ''2025-01-01T00:00:30Z''"
    using A by (simp add: glofas_site_def TWEET_LEVELS_def stamps_def)
  have 2: "\<exists>e. tweeted_alerts
          (glofas_tweet_step stamps (New, glofas_site ''Medium'')
             \<lparr>tweets = [], tweeted_alerts = Map.empty\<rparr>)
          (tweet_key (glofas_site ''Medium'')) = Some e
      \<and> e_risk_level e = ''Medium'' \<and> \<not> e_resolved e"
    using B by (simp add: glofas_site_def TWEET_LEVELS_def stamps_def)
  show ?thesis using 1 2 by blast
qed

subsection \<open>The tweet log over the runs\<close>

lemma site_was_notifiable_mono:
  "site_was_notifiable H k \<Longrightarrow> H \<subseteq> H' \<Longrightarrow> site_was_notifiable H' k"
  unfolding site_was_notifiable_def by blast

lemma files_invariant_mono:
  "files_invariant H fs \<Longrightarrow> H \<subseteq> H' \<Longrightarrow> files_invariant H' fs"
  unfolding files_invariant_def using site_was_notifiable_mono by blast

lemma files_invariant_no_files: "files_invariant {} no_files"
  by (simp add: files_invariant_def no_files_def)

lemma changes_key_notifiable:
  assumes "compare_alerts (build_alert_dict ps) (build_alert_dict cs) = Inr changes"
    and "x \<in> set changes"
  shows "site_was_notifiable {cs, ps} (tweet_key (snd x))"
proof -
  obtain t a where x: "x = (t, a)" by (cases x)
  note M = compare_alerts_member [OF assms(1) assms(2) [unfolded x]]
  have key: "site_of_log_key (tweet_key (snd x)) = alert_key a"
    using x by (simp add: site_of_tweet_key)
  show ?thesis
  proof (cases "t = Downgrade")
    case True
    then obtain p where "map_of (build_alert_dict ps) (alert_key a) = Some p"
      "dynamic_level p \<in> set TWEET_LEVELS" using M by blast
    then show ?thesis unfolding site_was_notifiable_def key by blast
  next
    case False
    then have "map_of (build_alert_dict cs) (alert_key a) = Some a"
      "dynamic_level a \<in> set TWEET_LEVELS" using M by blast+
    then show ?thesis unfolding site_was_notifiable_def key by blast
  qed
qed

lemma glofas_loop_new_key:
  assumes "tweeted_alerts (glofas_tweet_loop clock changes st) k \<noteq> tweeted_alerts st k"
  shows "\<exists>x\<in>set changes. k = tweet_key (snd x)"
proof (rule ccontr)
  assume "\<not> (\<exists>x\<in>set changes. k = tweet_key (snd x))"
  then have "\<And>x. x \<in> set changes \<Longrightarrow> k \<noteq> tweet_key (snd x)" by blast
  then have "tweeted_alerts (fold (glofas_tweet_step clock) changes st) k = tweeted_alerts st k"
  proof (induction changes arbitrary: st)
    case Nil
    then show ?case by simp
  next
    case (Cons x rest)
    have "tweeted_alerts (glofas_tweet_step clock x st) k = tweeted_alerts st k"
      using glofas_step_other [of k x clock st] Cons.prems by simp
    then show ?case using Cons.IH [of "glofas_tweet_step clock x st"] Cons.prems by simp
  qed
  then show False using assms by (simp add: glofas_tweet_loop_def)
qed

lemma live_loop_new_key:
  assumes "tweeted_alerts (live_tweet_loop clock changes st) k \<noteq> tweeted_alerts st k"
  shows "\<exists>x\<in>set changes. k = tweet_key (snd x)"
proof (rule ccontr)
  assume "\<not> (\<exists>x\<in>set changes. k = tweet_key (snd x))"
  then have "k \<notin> (\<lambda>x. tweet_key (snd x)) ` set changes" by blast
  from live_loop_other [OF this, of clock st] show False
    using assms by (simp add: live_tweet_loop_def)
qed

lemma glofas_main_InrD:
  assumes "glofas_main clock alerts fs = Inr out"
  shows "\<exists>previous led changes.
           load_json (comparison_files fs) Base = Inr previous
           \<and> load_tweeted_alerts (tweet_log fs) = Inr led
           \<and> compare_alerts (build_alert_dict (doc_alerts previous)) (build_alert_dict alerts)
                = Inr changes"
proof (cases "load_json (comparison_files fs) Base")
  case (Inl e)
  then show ?thesis using assms by (simp add: glofas_main_def)
next
  case previous: (Inr previous)
  show ?thesis
  proof (cases "load_tweeted_alerts (tweet_log fs)")
    case (Inl e)
    then show ?thesis using assms previous by (simp add: glofas_main_def Let_def)
  next
    case led: (Inr led)
    show ?thesis
    proof (cases "compare_alerts (build_alert_dict (doc_alerts previous)) (build_alert_dict alerts)")
      case (Inl e)
      then show ?thesis using assms previous led by (simp add: glofas_main_def Let_def)
    next
      case (Inr changes)
      then show ?thesis using previous led by simp
    qed
  qed
qed

lemma live_main_InrD:
  assumes "live_main clock valid_coords alerts fs = Inr out"
  shows "\<exists>previous led changes.
           load_json (comparison_files fs) Base = Inr previous
           \<and> load_tweeted_alerts (tweet_log fs) = Inr led
           \<and> compare_alerts (build_alert_dict (doc_alerts previous)) (build_alert_dict alerts)
                = Inr changes"
proof (cases "load_json (comparison_files fs) Base")
  case (Inl e)
  then show ?thesis using assms by (simp add: live_main_def)
next
  case previous: (Inr previous)
  show ?thesis
  proof (cases "load_tweeted_alerts (tweet_log fs)")
    case (Inl e)
    then show ?thesis using assms previous by (simp add: live_main_def Let_def)
  next
    case led: (Inr led)
    show ?thesis
    proof (cases "compare_alerts (build_alert_dict (doc_alerts previous)) (build_alert_dict alerts)")
      case (Inl e)
      then show ?thesis using assms previous led by (simp add: live_main_def Let_def)
    next
      case (Inr changes)
      then show ?thesis using previous led by simp
    qed
  qed
qed

lemma glofas_run_new_entry:
  assumes "glofas_main clock alerts fs = Inr (fs', tw)"
    and "load_json (comparison_files fs) Base = Inr previous"
    and "load_tweeted_alerts (tweet_log fs) = Inr led"
  shows "\<exists>led'. tweet_log fs' = Some (Doc led')
           \<and> (\<forall>k. led' k \<noteq> None \<and> led k = None \<longrightarrow>
                 site_was_notifiable {alerts, doc_alerts previous} k)"
proof -
  obtain changes where ch:
    "compare_alerts (build_alert_dict (doc_alerts previous)) (build_alert_dict alerts) = Inr changes"
    using glofas_main_InrD [OF assms(1)] assms(2,3) by auto
  let ?fin = "glofas_tweet_loop clock changes \<lparr>tweets = [], tweeted_alerts = led\<rparr>"
  have log: "tweet_log fs' = Some (Doc (tweeted_alerts ?fin))"
    using assms(1) unfolding glofas_main_Inr [OF assms(2,3) ch] by auto
  have "site_was_notifiable {alerts, doc_alerts previous} k"
    if "tweeted_alerts ?fin k \<noteq> None" "led k = None" for k
  proof -
    have "tweeted_alerts ?fin k \<noteq> tweeted_alerts \<lparr>tweets = [], tweeted_alerts = led\<rparr> k"
      using that by simp
    from glofas_loop_new_key [OF this] obtain x where "x \<in> set changes" "k = tweet_key (snd x)"
      by blast
    then show ?thesis using changes_key_notifiable [OF ch] by simp
  qed
  then show ?thesis using log by blast
qed

lemma live_run_new_entry:
  assumes "live_main clock valid_coords alerts fs = Inr (fs', tw)"
    and "load_json (comparison_files fs) Base = Inr previous"
    and "load_tweeted_alerts (tweet_log fs) = Inr led"
  shows "\<exists>led'. tweet_log fs' = Some (Doc led')
           \<and> (\<forall>k. led' k \<noteq> None \<and> led k = None \<longrightarrow>
                 site_was_notifiable {alerts, doc_alerts previous} k)"
proof -
  obtain changes where ch:
    "compare_alerts (build_alert_dict (doc_alerts previous)) (build_alert_dict alerts) = Inr changes"
    using live_main_InrD [OF assms(1)] assms(2,3) by auto
  let ?s0 = "\<lparr>tweets = [], tweeted_alerts = cleanup_tweeted_alerts led valid_coords\<rparr>
               :: (live_alert, live_entry) tracker"
  let ?fin = "live_tweet_loop clock changes ?s0"
  have log: "tweet_log fs' = Some (Doc (tweeted_alerts ?fin))"
    using assms(1) unfolding live_main_Inr [OF assms(2,3) ch] by auto
  have "site_was_notifiable {alerts, doc_alerts previous} k"
    if "tweeted_alerts ?fin k \<noteq> None" "led k = None" for k
  proof -
    have "cleanup_tweeted_alerts led valid_coords k = None"
      using that(2) by (simp add: cleanup_tweeted_alerts_def restrict_map_def)
    then have "tweeted_alerts ?fin k \<noteq> tweeted_alerts ?s0 k"
      using that(1) by simp
    from live_loop_new_key [OF this] obtain x where "x \<in> set changes" "k = tweet_key (snd x)"
      by blast
    then show ?thesis using changes_key_notifiable [OF ch] by simp
  qed
  then show ?thesis using log by blast
qed

lemma invariant_step:
  assumes inv: "files_invariant H fs"
    and prev: "load_json (comparison_files fs) Base = Inr previous"
    and led: "load_tweeted_alerts (tweet_log fs) = Inr led"
    and log': "tweet_log fs' = Some (Doc led')"
    and new: "\<forall>k. led' k \<noteq> None \<and> led k = None \<longrightarrow>
                 site_was_notifiable {alerts, doc_alerts previous} k"
    and cmp': "comparison_files fs' Base = Some (Doc \<lparr>meta = m, doc_alerts = alerts\<rparr>)"
  shows "files_invariant (insert alerts H) fs'"
proof -
  have p: "doc_alerts previous = [] \<or> doc_alerts previous \<in> H"
  proof (cases "comparison_files fs Base")
    case None
    then show ?thesis using prev by (auto simp: load_json_def)
  next
    case (Some d)
    then obtain alerts0 m0 where "alerts0 \<in> H" "d = Doc \<lparr>meta = m0, doc_alerts = alerts0\<rparr>"
      using inv unfolding files_invariant_def by blast
    then show ?thesis using prev Some by (auto simp: load_json_def)
  qed
  have l: "site_was_notifiable H k" if "led k \<noteq> None" for k
  proof (cases "tweet_log fs")
    case None
    then show ?thesis using led that by (auto simp: load_tweeted_alerts_def)
  next
    case (Some l)
    then obtain led0 where "l = Doc led0" "\<forall>k\<in>dom led0. site_was_notifiable H k"
      using inv unfolding files_invariant_def by blast
    then show ?thesis using led Some that by (auto simp: load_tweeted_alerts_def)
  qed
  have n: "site_was_notifiable (insert alerts H) k" if "led' k \<noteq> None" for k
  proof (cases "led k = None")
    case False
    then show ?thesis using l site_was_notifiable_mono by blast
  next
    case True
    then have "site_was_notifiable {alerts, doc_alerts previous} k" using new that by blast
    then obtain alerts0 a where a: "alerts0 \<in> {alerts, doc_alerts previous}"
      "map_of (build_alert_dict alerts0) (site_of_log_key k) = Some a"
      "dynamic_level a \<in> set TWEET_LEVELS"
      unfolding site_was_notifiable_def by blast
    have "alerts0 \<noteq> []" using a(2) by (auto simp: build_alert_dict_def)
    then have "alerts0 \<in> insert alerts H" using a(1) p by auto
    then show ?thesis using a(2,3) unfolding site_was_notifiable_def by blast
  qed
  show ?thesis
    unfolding files_invariant_def using log' cmp' n by (auto simp: dom_def)
qed

lemma glofas_main_invariant:
  assumes "files_invariant H fs" and "glofas_main clock alerts fs = Inr (fs', tw)"
  shows "files_invariant (insert alerts H) fs'"
proof -
  obtain previous led changes where
    p: "load_json (comparison_files fs) Base = Inr previous"
    and l: "load_tweeted_alerts (tweet_log fs) = Inr led"
    and c: "compare_alerts (build_alert_dict (doc_alerts previous)) (build_alert_dict alerts)
              = Inr changes"
    using glofas_main_InrD [OF assms(2)] by blast
  obtain led' where led': "tweet_log fs' = Some (Doc led')"
    "\<forall>k. led' k \<noteq> None \<and> led k = None \<longrightarrow> site_was_notifiable {alerts, doc_alerts previous} k"
    using glofas_run_new_entry [OF assms(2) p l] by blast
  have "comparison_files fs' Base =
          Some (Doc \<lparr>meta = Some \<lparr>timestamp = clock 0, source = ''GloFAS'',
                                    features_evaluated = length alerts\<rparr>,
                      doc_alerts = alerts\<rparr>)"
    using assms(2) unfolding glofas_main_Inr [OF p l c] by auto
  from invariant_step [OF assms(1) p l led' this] show ?thesis .
qed

lemma live_main_invariant:
  assumes "files_invariant H fs" and "live_main clock valid_coords alerts fs = Inr (fs', tw)"
  shows "files_invariant (insert alerts H) fs'"
proof -
  obtain previous led changes where
    p: "load_json (comparison_files fs) Base = Inr previous"
    and l: "load_tweeted_alerts (tweet_log fs) = Inr led"
    and c: "compare_alerts (build_alert_dict (doc_alerts previous)) (build_alert_dict alerts)
              = Inr changes"
    using live_main_InrD [OF assms(2)] by blast
  obtain led' where led': "tweet_log fs' = Some (Doc led')"
    "\<forall>k. led' k \<noteq> None \<and> led k = None \<longrightarrow> site_was_notifiable {alerts, doc_alerts previous} k"
    using live_run_new_entry [OF assms(2) p l] by blast
  have "comparison_files fs' Base =
          Some (Doc \<lparr>meta = Some \<lparr>timestamp = clock 0, source = ''Open-Meteo'',
                                    features_evaluated = length alerts\<rparr>,
                      doc_alerts = alerts\<rparr>)"
    using assms(2) unfolding live_main_Inr [OF p l c] by auto
  from invariant_step [OF assms(1) p l led' this] show ?thesis .
qed

lemma glofas_runs_invariant:
  "files_invariant H fs \<Longrightarrow> files_invariant (H \<union> snd ` set runs) (glofas_runs runs fs)"
proof (induction runs arbitrary: H fs)
  case Nil
  then show ?case by simp
next
  case (Cons r rs)
  let ?fs1 = "case glofas_main (fst r) (snd r) fs of Inl e \<Rightarrow> fs | Inr out \<Rightarrow> fst out"
  have "files_invariant (insert (snd r) H) ?fs1"
  proof (cases "glofas_main (fst r) (snd r) fs")
    case (Inl e)
    then show ?thesis using files_invariant_mono [OF Cons.prems, of "insert (snd r) H"] by auto
  next
    case (Inr out)
    then have "glofas_main (fst r) (snd r) fs = Inr (fst out, snd out)" by simp
    from glofas_main_invariant [OF Cons.prems this] Inr show ?thesis by simp
  qed
  from Cons.IH [OF this] show ?case by (simp add: Un_commute insert_commute Un_insert_left)
qed

lemma live_runs_invariant:
  "files_invariant H fs \<Longrightarrow>
     files_invariant (H \<union> (\<lambda>r. snd (snd r)) ` set runs) (live_runs runs fs)"
proof (induction runs arbitrary: H fs)
  case Nil
  then show ?case by simp
next
  case (Cons r rs)
  let ?fs1 = "case live_main (fst r) (fst (snd r)) (snd (snd r)) fs of
                Inl e \<Rightarrow> fs | Inr out \<Rightarrow> fst out"
  have "files_invariant (insert (snd (snd r)) H) ?fs1"
  proof (cases "live_main (fst r) (fst (snd r)) (snd (snd r)) fs")
    case (Inl e)
    then show ?thesis
      using files_invariant_mono [OF Cons.prems, of "insert (snd (snd r)) H"] by auto
  next
    case (Inr out)
    then have "live_main (fst r) (fst (snd r)) (snd (snd r)) fs = Inr (fst out, snd out)" by simp
    from live_main_invariant [OF Cons.prems this] Inr show ?thesis by simp
  qed
  from Cons.IH [OF this] show ?case by (simp add: Un_commute insert_commute Un_insert_left)
qed

lemma compare_single_new:
  assumes "dynamic_level c \<in> set TWEET_LEVELS"
  shows "compare_alerts (build_alert_dict []) (build_alert_dict [c]) = Inr [(New, c)]"
proof -
  have "map_of (build_alert_dict []) (alert_key c) = None"
    by (simp add: build_alert_dict_def)
  from compare_step_new [OF this, of c "[]"] assms
  show ?thesis by (simp add: compare_alerts_def build_alert_dict_def)
qed

lemma no_files_loads:
  "load_json (comparison_files no_files) Base = Inr \<lparr>meta = None, doc_alerts = []\<rparr>"
  "load_tweeted_alerts (tweet_log no_files) = Inr Map.empty"
  by (simp_all add: load_json_def load_tweeted_alerts_def no_files_def)

lemma glofas_first_run:
  "\<exists>fs' led. glofas_main stamps [glofas_site ''Medium''] no_files
                 = Inr (fs', [(New, glofas_site ''Medium'')])
      \<and> tweet_log fs' = Some (Doc led)
      \<and> led (tweet_key (glofas_site ''Medium'')) \<noteq> None"
proof -
  have c: "compare_alerts (build_alert_dict (doc_alerts \<lparr>meta = None, doc_alerts = []\<rparr>))
             (build_alert_dict [glofas_site ''Medium'']) = Inr [(New, glofas_site ''Medium'')]"
    using compare_single_new [of "glofas_site ''Medium''"]
    by (simp add: glofas_site_def TWEET_LEVELS_def)
  show ?thesis
    unfolding glofas_main_Inr [OF no_files_loads c]
    by (simp add: glofas_tweet_loop_def glofas_tweet_step_def Let_def)
qed

lemma live_first_run:
  "\<exists>fs' led. live_main stamps UNIV [live_site ''Medium''] no_files
                 = Inr (fs', [(New, live_site ''Medium'')])
      \<and> tweet_log fs' = Some (Doc led)
      \<and> led (tweet_key (live_site ''Medium'')) \<noteq> None"
proof -
  have c: "compare_alerts (build_alert_dict (doc_alerts \<lparr>meta = None, doc_alerts = []\<rparr>))
             (build_alert_dict [live_site ''Medium'']) = Inr [(New, live_site ''Medium'')]"
    using compare_single_new [of "live_site ''Medium''"]
    by (simp add: live_site_def TWEET_LEVELS_def)
  show ?thesis
    unfolding live_main_Inr [OF no_files_loads c]
    by (simp add: live_tweet_loop_def live_tweet_step_def Let_def)
qed

text \<open>
  C5: starting with no files, after every sequence of runs of either evaluator (a run
  that raises writes nothing) the tweet log is readable and each of its keys is the
  key of a site that one of the runs had in its snapshot at a notifiable level. And in
  one run from any files, a key that the run adds to the tweet log belongs to a site
  that is at a notifiable level in the current snapshot or was in the previous one.
\<close>

theorem ledger_only_for_notifiable_sites:
  "(\<forall>led k. tweet_log (glofas_runs runs no_files) = Some (Doc led) \<and> led k \<noteq> None \<longrightarrow>
       site_was_notifiable (snd ` set runs) k)
   \<and> tweet_log (glofas_runs runs no_files) \<noteq> Some Corrupt
   \<and> (\<forall>led k. tweet_log (live_runs lruns no_files) = Some (Doc led) \<and> led k \<noteq> None \<longrightarrow>
       site_was_notifiable ((\<lambda>r. snd (snd r)) ` set lruns) k)
   \<and> tweet_log (live_runs lruns no_files) \<noteq> Some Corrupt
   \<and> (glofas_main clock alerts fs = Inr (fs', tw)
        \<and> load_json (comparison_files fs) Base = Inr previous
        \<and> load_tweeted_alerts (tweet_log fs) = Inr old \<longrightarrow>
       (\<exists>led'. tweet_log fs' = Some (Doc led')
           \<and> (\<forall>k. led' k \<noteq> None \<and> old k = None \<longrightarrow>
                 site_was_notifiable {alerts, doc_alerts previous} k)))
   \<and> (live_main lclock valid_coords lalerts lfs = Inr (lfs', ltw)
        \<and> load_json (comparison_files lfs) Base = Inr lprevious
        \<and> load_tweeted_alerts (tweet_log lfs) = Inr lold \<longrightarrow>
       (\<exists>led'. tweet_log lfs' = Some (Doc led')
           \<and> (\<forall>k. led' k \<noteq> None \<and> lold k = None \<longrightarrow>
                 site_was_notifiable {lalerts, doc_alerts lprevious} k)))"
proof -
  have g: "files_invariant (snd ` set runs) (glofas_runs runs (no_files :: (glofas_alert, glofas_entry) files))"
    using glofas_runs_invariant [OF files_invariant_no_files, of runs] by simp
  have l: "files_invariant ((\<lambda>r. snd (snd r)) ` set lruns)
             (live_runs lruns (no_files :: (live_alert, live_entry) files))"
    using live_runs_invariant [OF files_invariant_no_files, of lruns] by simp
  have 1: "\<forall>led k. tweet_log (glofas_runs runs no_files) = Some (Doc led) \<and> led k \<noteq> None \<longrightarrow>
       site_was_notifiable (snd ` set runs) k"
    using g unfolding files_invariant_def by (auto simp: dom_def)
  have 2: "tweet_log (glofas_runs runs no_files) \<noteq> Some Corrupt"
    using g unfolding files_invariant_def by auto
  have 3: "\<forall>led k. tweet_log (live_runs lruns no_files) = Some (Doc led) \<and> led k \<noteq> None \<longrightarrow>
       site_was_notifiable ((\<lambda>r. snd (snd r)) ` set lruns) k"
    using l unfolding files_invariant_def by (auto simp: dom_def)
  have 4: "tweet_log (live_runs lruns no_files) \<noteq> Some Corrupt"
    using l unfolding files_invariant_def by auto
  show ?thesis
    using 1 2 3 4 glofas_run_new_entry [of clock alerts fs fs' tw previous old]
      live_run_new_entry [of lclock valid_coords lalerts lfs lfs' ltw lprevious lold]
    by blast
qed

theorem ledger_only_for_notifiable_witness:
  "(\<exists>led. tweet_log (glofas_runs [(stamps, [glofas_site ''Medium''])] no_files) = Some (Doc led)
       \<and> led (tweet_key (glofas_site ''Medium'')) \<noteq> None)
   \<and> site_was_notifiable {[glofas_site ''Medium'']} (tweet_key (glofas_site ''Medium''))
   \<and> (\<exists>led. tweet_log (live_runs [(stamps, UNIV, [live_site ''Medium''])] no_files)
               = Some (Doc led)
       \<and> led (tweet_key (live_site ''Medium'')) \<noteq> None)
   \<and> site_was_notifiable {[live_site ''Medium'']} (tweet_key (live_site ''Medium''))
   \<and> site_was_notifiable {[glofas_site ''Medium''], []} (tweet_key (glofas_site ''Medium''))
   \<and> site_was_notifiable {[live_site ''Medium''], []} (tweet_key (live_site ''Medium''))"
proof -
  obtain gfs gled where g:
    "glofas_main stamps [glofas_site ''Medium''] no_files = Inr (gfs, [(New, glofas_site ''Medium'')])"
    "tweet_log gfs = Some (Doc gled)" "gled (tweet_key (glofas_site ''Medium'')) \<noteq> None"
    using glofas_first_run by blast
  obtain lfs lled where l:
    "live_main stamps UNIV [live_site ''Medium''] no_files = Inr (lfs, [(New, live_site ''Medium'')])"
    "tweet_log lfs = Some (Doc lled)" "lled (tweet_key (live_site ''Medium'')) \<noteq> None"
    using live_first_run by blast
  note T = ledger_only_for_notifiable_sites
      [where runs = "[(stamps, [glofas_site ''Medium''])]"
        and lruns = "[(stamps, UNIV, [live_site ''Medium''])]"
        and clock = stamps and alerts = "[glofas_site ''Medium'']" and fs = no_files
        and fs' = gfs and tw = "[(New, glofas_site ''Medium'')]"
        and previous = "\<lparr>meta = None, doc_alerts = []\<rparr>" and old = Map.empty
        and lclock = stamps and valid_coords = UNIV and lalerts = "[live_site ''Medium'']"
        and lfs = no_files and lfs' = lfs and ltw = "[(New, live_site ''Medium'')]"
        and lprevious = "\<lparr>meta = None, doc_alerts = []\<rparr>" and lold = Map.empty]
  have gr: "tweet_log (glofas_runs [(stamps, [glofas_site ''Medium''])] no_files) = Some (Doc gled)"
    using g by simp
  have lr: "tweet_log (live_runs [(stamps, UNIV, [live_site ''Medium''])] no_files)
              = Some (Doc lled)"
    using l by simp
  have 1: "site_was_notifiable {[glofas_site ''Medium'']} (tweet_key (glofas_site ''Medium''))"
    using T [THEN conjunct1, rule_format, of gled "tweet_key (glofas_site ''Medium'')"] gr g(3)
    by simp
  have 2: "site_was_notifiable {[live_site ''Medium'']} (tweet_key (live_site ''Medium''))"
    using T [THEN conjunct2, THEN conjunct2, THEN conjunct1, rule_format,
        of lled "tweet_key (live_site ''Medium'')"] lr l(3)
    by simp
  have ge: "(Map.empty :: log_key \<rightharpoonup> glofas_entry) k = None" for k by simp
  have le: "(Map.empty :: log_key \<rightharpoonup> live_entry) k = None" for k by simp
  note G = T [THEN conjunct2, THEN conjunct2, THEN conjunct2, THEN conjunct2, THEN conjunct1,
      THEN mp, OF conjI [OF g(1) conjI [OF no_files_loads]]]
  obtain gled' where g': "tweet_log gfs = Some (Doc gled')"
    "\<forall>k. gled' k \<noteq> None \<and> (Map.empty :: log_key \<rightharpoonup> glofas_entry) k = None \<longrightarrow>
        site_was_notifiable
          {[glofas_site ''Medium''], doc_alerts \<lparr>meta = None, doc_alerts = []\<rparr>} k"
    using G by (elim exE conjE) (rule that; assumption)
  have "gled' = gled" using g'(1) g(2) by simp
  then have 3: "site_was_notifiable {[glofas_site ''Medium''], []}
                  (tweet_key (glofas_site ''Medium''))"
    using g'(2) [rule_format, of "tweet_key (glofas_site ''Medium'')"] g(3) ge by simp
  note L = T [THEN conjunct2, THEN conjunct2, THEN conjunct2, THEN conjunct2, THEN conjunct2,
      THEN mp, OF conjI [OF l(1) conjI [OF no_files_loads]]]
  obtain lled' where l': "tweet_log lfs = Some (Doc lled')"
    "\<forall>k. lled' k \<noteq> None \<and> (Map.empty :: log_key \<rightharpoonup> live_entry) k = None \<longrightarrow>
        site_was_notifiable
          {[live_site ''Medium''], doc_alerts \<lparr>meta = None, doc_alerts = []\<rparr>} k"
    using L by (elim exE conjE) (rule that; assumption)
  have "lled' = lled" using l'(1) l(2) by simp
  then have 4: "site_was_notifiable {[live_site ''Medium''], []}
                  (tweet_key (live_site ''Medium''))"
    using l'(2) [rule_format, of "tweet_key (live_site ''Medium'')"] l(3) le by simp
  show ?thesis using gr g(3) lr l(3) 1 2 3 4 by blast
qed

end
